theory Spec2Isabelle
  imports Main "HOL-Library.Multiset"
begin

section \<open>Data model of \<^verbatim>\<open>sort/fs_sort.go\<close>\<close>

text \<open>
  The media type of a resolved match. The Go code converts the string \<^verbatim>\<open>result.MType\<close> to
  \<^verbatim>\<open>mediasearch.MediaType\<close> and switches on the two constants \<^verbatim>\<open>Series\<close> and \<^verbatim>\<open>Movie\<close>;
  every other string takes the \<^verbatim>\<open>default\<close> branch.
\<close>

datatype MediaType = Series | Movie | OtherType string

text \<open>The fields of \<^verbatim>\<open>Result\<close> that \<^verbatim>\<open>sortFile\<close> reads.\<close>

record Result =
  Path :: string
  MType :: MediaType

text \<open>
  What the operating system knows about one path: an \<^verbatim>\<open>os.FileInfo\<close> (name, size, kind)
  and, for a directory, what \<^verbatim>\<open>ioutil.ReadDir\<close> returns for it. \<open>DirNoList\<close> is a directory
  whose listing fails; \<open>Special\<close> is a link, pipe, device and so on.
\<close>

datatype entry =
    Regular string int
  | Directory string int "entry list"
  | DirNoList string int
  | Special string int

fun Name :: "entry \<Rightarrow> string" where
  "Name (Regular n s) = n"
| "Name (Directory n s es) = n"
| "Name (DirNoList n s) = n"
| "Name (Special n s) = n"

fun Size :: "entry \<Rightarrow> int" where
  "Size (Regular n s) = s"
| "Size (Directory n s es) = s"
| "Size (DirNoList n s) = s"
| "Size (Special n s) = s"

fun IsRegular :: "entry \<Rightarrow> bool" where
  "IsRegular (Regular n s) = True"
| "IsRegular (Directory n s es) = False"
| "IsRegular (DirNoList n s) = False"
| "IsRegular (Special n s) = False"

fun IsDir :: "entry \<Rightarrow> bool" where
  "IsDir (Regular n s) = False"
| "IsDir (Directory n s es) = True"
| "IsDir (DirNoList n s) = True"
| "IsDir (Special n s) = False"

text \<open>Every error value the file can return, one constructor per message.\<close>

datatype error =
    ErrWatchNeedsRecursive
  | ErrOverwriteRedundant
  | ErrNoDirsToWatch
  | ErrNoSortableFiles int
  | ErrRecursiveRequired
  | ErrStat string
  | ErrReadDir string
  | ErrResolver string
  | ErrPrettyPath string
  | ErrInvalidResultType MediaType
  | ErrFileExists string
  | ErrMkdirAll string
  | ErrRename string string
  | ErrNewWatcher
  | ErrWatchAdd string

text \<open>
  \<^verbatim>\<open>Config\<close>. The embedded \<^verbatim>\<open>PathConfig\<close> is declared in another file and is only handed
  on to \<^verbatim>\<open>PrettyPath\<close>, so its type is a parameter. Go's \<^verbatim>\<open>int\<close> fields are integers: the
  code only compares them, so no wrap-around is involved.
\<close>

record 'pc Config =
  Targets :: "string list"
  TVDir :: string
  MovieDir :: string
  PathConfig :: 'pc
  Extensions :: string
  Concurrency :: int
  FileLimit :: int
  Recursive :: bool
  DryRun :: bool
  SkipHidden :: bool
  Overwrite :: bool
  OverwriteIfLarger :: bool
  Watch :: bool
  WatchDelay :: int

text \<open>\<^verbatim>\<open>fileSort\<close>; the field \<^verbatim>\<open>id\<close> is called \<open>idn\<close> here.\<close>

record fileSort =
  idn :: int
  path :: string
  info :: entry
  result :: "Result option"
  err :: "error option"

record stats =
  found :: int
  matched :: int
  moved :: int

text \<open>
  \<^verbatim>\<open>fsSort\<close>. The map \<^verbatim>\<open>sorts\<close> is an association list with distinct keys (\<open>put\<close> below
  replaces the value of a key that is present), so that \<^verbatim>\<open>len(fs.sorts)\<close> is its length;
  \<^verbatim>\<open>validExts\<close> and \<^verbatim>\<open>dirs\<close> map to \<^verbatim>\<open>true\<close> only, so they are the collections of their keys.
\<close>

record 'pc fsSort =
  config :: "'pc Config"
  validExts :: "string set"
  sorts :: "(string \<times> fileSort) list"
  dirs :: "string list"
  stats :: stats

fun put :: "'k \<Rightarrow> 'v \<Rightarrow> ('k \<times> 'v) list \<Rightarrow> ('k \<times> 'v) list" where
  "put k v [] = [(k, v)]"
| "put k v (p # ps) = (if fst p = k then (k, v) # ps else p # put k v ps)"

section \<open>The world outside the program\<close>

text \<open>
  The system calls the file makes are recorded in \<open>trace\<close>, oldest first, and the lines
  it logs in \<open>logs\<close>. \<open>nodes\<close> is what \<^verbatim>\<open>os.Stat\<close> answers for a path; \<open>locked\<close> holds the
  paths on which \<^verbatim>\<open>os.MkdirAll\<close> and \<^verbatim>\<open>os.Rename\<close> fail (permissions, another device).
\<close>

datatype op = OpStat string | OpReadDir string | OpMkdirAll string | OpRename string string

datatype logline =
    LogDryrun
  | LogMove int nat string string
  | LogFail int nat string error
  | LogWatching string
  | LogChange int

record world =
  nodes :: "string \<rightharpoonup> entry"
  locked :: "string set"
  trace :: "op list"
  logs :: "logline list"

text \<open>
  The collaborators that are not in this file: the resolver \<^verbatim>\<open>Sort\<close> and the path
  formatter \<^verbatim>\<open>PrettyPath\<close> of the same package, and \<^verbatim>\<open>filepath.Join\<close> and \<^verbatim>\<open>filepath.Dir\<close> of
  the standard library.
\<close>

record 'pc env =
  Sort :: "string \<Rightarrow> error + Result"
  PrettyPath :: "Result \<Rightarrow> 'pc \<Rightarrow> error + string"
  Join :: "string \<Rightarrow> string \<Rightarrow> string"
  Dir :: "string \<Rightarrow> string"

definition os_Stat :: "string \<Rightarrow> world \<Rightarrow> entry option \<times> world" where
  "os_Stat p w = (nodes w p, w\<lparr>trace := trace w @ [OpStat p]\<rparr>)"

text \<open>The last element of a slash-separated path, the name a moved file gets.\<close>

definition base :: "string \<Rightarrow> string" where
  "base p = rev (takeWhile (\<lambda>c. c \<noteq> CHR ''/'') (rev p))"

fun setName :: "string \<Rightarrow> entry \<Rightarrow> entry" where
  "setName n (Regular m s) = Regular n s"
| "setName n (Directory m s es) = Directory n s es"
| "setName n (DirNoList m s) = DirNoList n s"
| "setName n (Special m s) = Special n s"

text \<open>
  \<^verbatim>\<open>os.MkdirAll(dir, 0755)\<close>: no error when \<open>dir\<close> is a directory already, an error when it
  is something else or cannot be created.
\<close>

definition os_MkdirAll :: "string \<Rightarrow> world \<Rightarrow> error option \<times> world" where
  "os_MkdirAll d w =
     (let w1 = w\<lparr>trace := trace w @ [OpMkdirAll d]\<rparr> in
      case nodes w d of
        Some e \<Rightarrow> if IsDir e then (None, w1) else (Some (ErrMkdirAll d), w1)
      | None \<Rightarrow>
          if d \<in> locked w then (Some (ErrMkdirAll d), w1)
          else (None, w1\<lparr>nodes := (nodes w)(d \<mapsto> Directory (base d) 0 [])\<rparr>))"

text \<open>
  \<^verbatim>\<open>os.Rename(old, new)\<close>: fails when \<open>old\<close> does not exist or either path is locked;
  otherwise whatever was at \<open>new\<close> is replaced.
\<close>

definition os_Rename :: "string \<Rightarrow> string \<Rightarrow> world \<Rightarrow> error option \<times> world" where
  "os_Rename old new w =
     (let w1 = w\<lparr>trace := trace w @ [OpRename old new]\<rparr> in
      case nodes w old of
        None \<Rightarrow> (Some (ErrRename old new), w1)
      | Some e \<Rightarrow>
          if old \<in> locked w \<or> new \<in> locked w then (Some (ErrRename old new), w1)
          else (None, w1\<lparr>nodes := ((nodes w)(old := None))(new \<mapsto> setName (base new) e)\<rparr>))"

section \<open>Standard-library string functions\<close>

text \<open>\<^verbatim>\<open>strings.Split(s, ",")\<close> with a one-character separator.\<close>

fun Split :: "string \<Rightarrow> char \<Rightarrow> string list" where
  "Split [] sep = [[]]"
| "Split (c # cs) sep =
     (if c = sep then [] # Split cs sep
      else (case Split cs sep of [] \<Rightarrow> [[c]] | x # xs \<Rightarrow> (c # x) # xs))"

definition HasPrefix :: "string \<Rightarrow> string \<Rightarrow> bool" where
  "HasPrefix s p = (take (length p) s = p)"

definition HasSuffix :: "string \<Rightarrow> string \<Rightarrow> bool" where
  "HasSuffix s x = (length x \<le> length s \<and> drop (length s - length x) s = x)"

definition TrimSuffix :: "string \<Rightarrow> string \<Rightarrow> string" where
  "TrimSuffix s x = (if HasSuffix s x then take (length s - length x) s else s)"

text \<open>
  \<^verbatim>\<open>filepath.Ext\<close>: the suffix of the last path element that starts at its last dot,
  empty when that element has no dot.
\<close>

definition Ext :: "string \<Rightarrow> string" where
  "Ext p =
     (let l = takeWhile (\<lambda>c. c \<noteq> CHR ''/'') (rev p) in
      if CHR ''.'' \<in> set l then CHR ''.'' # rev (takeWhile (\<lambda>c. c \<noteq> CHR ''.'') l)
      else [])"

section \<open>Scanner: \<^verbatim>\<open>add\<close> and \<^verbatim>\<open>scan\<close>\<close>

text \<open>
  \<^verbatim>\<open>add\<close> returns the error (\<open>None\<close> is \<^verbatim>\<open>nil\<close>) together with the sorter and the world as
  it leaves them, also when it fails: the Go method mutates \<^verbatim>\<open>fs\<close> in place. \<open>addAll\<close> is
  the loop over the listing of a directory, which stops at the first error.
\<close>

fun add :: "'pc env \<Rightarrow> string \<Rightarrow> entry \<Rightarrow> 'pc fsSort \<Rightarrow> world \<Rightarrow> error option \<times> 'pc fsSort \<times> world"
and addAll :: "'pc env \<Rightarrow> string \<Rightarrow> entry list \<Rightarrow> 'pc fsSort \<Rightarrow> world \<Rightarrow> error option \<times> 'pc fsSort \<times> world"
where
  "add env p i fs w =
     (if SkipHidden (config fs) \<and> HasPrefix (Name i) ''.'' then (None, fs, w)
      else if FileLimit (config fs) \<le> int (length (sorts fs)) then (None, fs, w)
      else if IsRegular i then
        (let fs1 = fs\<lparr>stats := (stats fs)\<lparr>found := found (stats fs) + 1\<rparr>\<rparr> in
         if Ext p \<notin> validExts fs1 then (None, fs1, w)
         else
           (let fs2 = fs1\<lparr>sorts := put p \<lparr>idn = int (length (sorts fs1)) + 1, path = p, info = i,
                                             result = None, err = None\<rparr> (sorts fs1)\<rparr>;
                fs3 = fs2\<lparr>stats := (stats fs2)\<lparr>matched := matched (stats fs2) + 1\<rparr>\<rparr>
            in (None, fs3, w)))
      else if IsDir i then
        (if \<not> Recursive (config fs) then (Some ErrRecursiveRequired, fs, w)
         else
           (let fs1 = fs\<lparr>dirs := List.insert p (dirs fs)\<rparr>;
                w1 = w\<lparr>trace := trace w @ [OpReadDir p]\<rparr>
            in case i of
                 Directory n s infos \<Rightarrow> addAll env p infos fs1 w1
               | _ \<Rightarrow> (Some (ErrReadDir p), fs1, w1)))
      else (None, fs, w))"
| "addAll env p [] fs w = (None, fs, w)"
| "addAll env p (i # infos) fs w =
     (case add env (Join env p (Name i)) i fs w of
        (Some e, fs', w') \<Rightarrow> (Some e, fs', w')
      | (None, fs', w') \<Rightarrow> addAll env p infos fs' w')"

declare add.simps [simp del]

text \<open>The loop of \<^verbatim>\<open>scan\<close> over the targets, then its check that something was found.\<close>

fun scanTargets :: "'pc env \<Rightarrow> string list \<Rightarrow> 'pc fsSort \<Rightarrow> world \<Rightarrow> error option \<times> 'pc fsSort \<times> world" where
  "scanTargets env [] fs w = (None, fs, w)"
| "scanTargets env (p # ps) fs w =
     (case os_Stat p w of
        (None, w1) \<Rightarrow> (Some (ErrStat p), fs, w1)
      | (Some i, w1) \<Rightarrow>
          (case add env p i fs w1 of
             (Some e, fs', w') \<Rightarrow> (Some e, fs', w')
           | (None, fs', w') \<Rightarrow> scanTargets env ps fs' w'))"

definition scan :: "'pc env \<Rightarrow> 'pc fsSort \<Rightarrow> world \<Rightarrow> error option \<times> 'pc fsSort \<times> world" where
  "scan env fs w =
     (case scanTargets env (Targets (config fs)) fs w of
        (Some e, fs', w') \<Rightarrow> (Some e, fs', w')
      | (None, fs', w') \<Rightarrow>
          if length (sorts fs') = 0 \<and> (\<not> Watch (config fs') \<or> length (dirs fs') = 0)
          then (Some (ErrNoSortableFiles (found (stats fs'))), fs', w')
          else (None, fs', w'))"

section \<open>Placer: \<^verbatim>\<open>sortFile\<close>\<close>

text \<open>
  The destination of a resolved match: \<^verbatim>\<open>PrettyPath\<close>, then the base directory chosen by
  the media type.
\<close>

definition destination :: "'pc env \<Rightarrow> 'pc fsSort \<Rightarrow> Result \<Rightarrow> error + string" where
  "destination env fs r =
     (case PrettyPath env r (PathConfig (config fs)) of
        Inl e \<Rightarrow> Inl e
      | Inr newPath \<Rightarrow>
          (case MType r of
             Series \<Rightarrow> Inr (Join env (TVDir (config fs)) newPath)
           | Movie \<Rightarrow> Inr (Join env (MovieDir (config fs)) newPath)
           | OtherType t \<Rightarrow> Inl (ErrInvalidResultType (MType r))))"

text \<open>
  The block under \<^verbatim>\<open>//check already exists\<close>. \<open>newInfo\<close> is the file found at the
  destination and \<open>info file\<close> the file being moved, compared in the order of the source.
\<close>

definition checkExists :: "'pc fsSort \<Rightarrow> fileSort \<Rightarrow> string \<Rightarrow> world \<Rightarrow> error option \<times> world" where
  "checkExists fs file newPath w =
     (case os_Stat newPath w of
        (None, w1) \<Rightarrow> (None, w1)
      | (Some newInfo, w1) \<Rightarrow>
          (let newIsLarger = (Size newInfo > Size (info file));
               overwrite0 = Overwrite (config fs);
               overwrite =
                 (if \<not> overwrite0 \<and> OverwriteIfLarger (config fs) \<and> newIsLarger then True
                  else overwrite0)
           in if \<not> overwrite then (Some (ErrFileExists newPath), w1) else (None, w1)))"

text \<open>The best-effort move of the \<^verbatim>\<open>.srt\<close> file: the error of its rename is dropped.\<close>

definition srtPath :: "string \<Rightarrow> string" where
  "srtPath p = TrimSuffix p (Ext p) @ ''.srt''"

definition moveSubs :: "Result \<Rightarrow> string \<Rightarrow> world \<Rightarrow> world" where
  "moveSubs r newPath w =
     (let pathSubs = srtPath (Path r) in
      case os_Stat pathSubs w of
        (None, w1) \<Rightarrow> w1
      | (Some i, w1) \<Rightarrow>
          (let newPathSubs = srtPath newPath
           in snd (os_Rename pathSubs newPathSubs w1)))"

definition sortFile :: "'pc env \<Rightarrow> 'pc fsSort \<Rightarrow> fileSort \<Rightarrow> world \<Rightarrow> error option \<times> world" where
  "sortFile env fs file w =
     (case Sort env (path file) of
        Inl e \<Rightarrow> (Some e, w)
      | Inr r \<Rightarrow>
          (case destination env fs r of
             Inl e \<Rightarrow> (Some e, w)
           | Inr newPath \<Rightarrow>
               (let w1 = w\<lparr>logs := logs w @
                            [LogMove (idn file) (length (sorts fs)) (Path r) newPath]\<rparr>
                in if DryRun (config fs) then (None, w1)
                   else if Path r = newPath then (None, w1)
                   else
                     (case checkExists fs file newPath w1 of
                        (Some e, w2) \<Rightarrow> (Some e, w2)
                      | (None, w2) \<Rightarrow>
                          (case os_MkdirAll (Dir env newPath) w2 of
                             (Some e, w3) \<Rightarrow> (Some e, w3)
                           | (None, w3) \<Rightarrow>
                               (case os_Rename (Path r) newPath w3 of
                                  (Some e, w4) \<Rightarrow> (Some e, w4)
                                | (None, w4) \<Rightarrow> (None, moveSubs r newPath w4)))))))"

section \<open>Dispatcher: \<^verbatim>\<open>sortAllFiles\<close>\<close>

text \<open>
  The goroutines of \<^verbatim>\<open>sortAllFiles\<close> as a transition system. The main goroutine walks the
  candidates in an order Go does not fix; for each it does \<^verbatim>\<open>wg.Add(1)\<close>, sends on \<^verbatim>\<open>queue\<close>
  (which blocks while the buffer is full) and starts a goroutine. A goroutine runs
  \<^verbatim>\<open>fs.sortFile\<close> and logs its error, then receives from \<^verbatim>\<open>queue\<close>, then calls \<^verbatim>\<open>wg.Done()\<close>.
  After the loop the main goroutine waits for the counter to be zero and returns \<^verbatim>\<open>nil\<close>.

  A candidate is in \<open>waiting\<close> until the loop reaches it, in \<open>running\<close> until its
  \<^verbatim>\<open>fs.sortFile\<close> has been run, in \<open>holding\<close> until it has received from \<^verbatim>\<open>queue\<close>, in
  \<open>leaving\<close> until \<^verbatim>\<open>wg.Done()\<close>, and in \<open>finished\<close> afterwards. \<open>outcomes\<close> remembers what
  each \<^verbatim>\<open>fs.sortFile\<close> returned. One call of \<^verbatim>\<open>fs.sortFile\<close> is one step.
\<close>

record dstate =
  waiting :: "fileSort list"
  running :: "fileSort list"
  holding :: "fileSort list"
  leaving :: "fileSort list"
  finished :: "fileSort list"
  outcomes :: "(fileSort \<times> error option) list"
  queue :: nat
  wg :: nat
  returned :: bool
  dworld :: world

datatype action = Spawn nat | Work nat | Release nat | Finish nat | Return

definition dropAt :: "nat \<Rightarrow> 'a list \<Rightarrow> 'a list" where
  "dropAt i xs = take i xs @ drop (Suc i) xs"

text \<open>
  One step of the goroutine an action names; \<open>None\<close> when that goroutine is blocked or
  does not exist.
\<close>

fun dstep :: "'pc env \<Rightarrow> 'pc fsSort \<Rightarrow> action \<Rightarrow> dstate \<Rightarrow> dstate option" where
  "dstep env fs (Spawn i) s =
     (if \<not> returned s \<and> i < length (waiting s) \<and> int (queue s) < Concurrency (config fs)
      then Some (s\<lparr>waiting := dropAt i (waiting s),
                   running := running s @ [waiting s ! i],
                   queue := queue s + 1,
                   wg := wg s + 1\<rparr>)
      else None)"
| "dstep env fs (Work i) s =
     (if i < length (running s)
      then
        (let file = running s ! i in
         case sortFile env fs file (dworld s) of
           (Some e, w') \<Rightarrow>
             Some (s\<lparr>running := dropAt i (running s),
                     holding := holding s @ [file],
                     outcomes := outcomes s @ [(file, Some e)],
                     dworld := w'\<lparr>logs := logs w' @
                       [LogFail (idn file) (length (sorts fs)) (path file) e]\<rparr>\<rparr>)
         | (None, w') \<Rightarrow>
             Some (s\<lparr>running := dropAt i (running s),
                     holding := holding s @ [file],
                     outcomes := outcomes s @ [(file, None)],
                     dworld := w'\<rparr>))
      else None)"
| "dstep env fs (Release i) s =
     (if i < length (holding s) \<and> 0 < queue s
      then Some (s\<lparr>holding := dropAt i (holding s),
                   leaving := leaving s @ [holding s ! i],
                   queue := queue s - 1\<rparr>)
      else None)"
| "dstep env fs (Finish i) s =
     (if i < length (leaving s) \<and> 0 < wg s
      then Some (s\<lparr>leaving := dropAt i (leaving s),
                   finished := finished s @ [leaving s ! i],
                   wg := wg s - 1\<rparr>)
      else None)"
| "dstep env fs Return s =
     (if \<not> returned s \<and> waiting s = [] \<and> wg s = 0 then Some (s\<lparr>returned := True\<rparr>)
      else None)"

text \<open>A schedule is the order in which the Go runtime lets the goroutines step.\<close>

fun run :: "'pc env \<Rightarrow> 'pc fsSort \<Rightarrow> action list \<Rightarrow> dstate \<Rightarrow> dstate" where
  "run env fs [] s = s"
| "run env fs (a # as) s =
     run env fs as (case dstep env fs a s of None \<Rightarrow> s | Some s' \<Rightarrow> s')"

definition dinit :: "'pc fsSort \<Rightarrow> world \<Rightarrow> dstate" where
  "dinit fs w =
     \<lparr>waiting = map snd (sorts fs), running = [], holding = [], leaving = [], finished = [],
      outcomes = [], queue = 0, wg = 0, returned = False, dworld = w\<rparr>"

text \<open>
  \<^verbatim>\<open>sortAllFiles\<close> under a schedule. The first component is \<open>Some None\<close> when the call has
  returned \<^verbatim>\<open>nil\<close> and \<open>None\<close> when it has not returned: \<^verbatim>\<open>make\<close> panics on a negative
  capacity, and a schedule may leave the main goroutine blocked.
\<close>

definition sortAllFiles :: "'pc env \<Rightarrow> 'pc fsSort \<Rightarrow> action list \<Rightarrow> world \<Rightarrow> error option option \<times> world" where
  "sortAllFiles env fs sched w =
     (let w1 = (if DryRun (config fs) then w\<lparr>logs := logs w @ [LogDryrun]\<rparr> else w) in
      if Concurrency (config fs) < 0 then (None, w1)
      else
        (let s = run env fs sched (dinit fs w1)
         in if returned s then (Some None, dworld s) else (None, dworld s)))"

section \<open>Watcher and control loop\<close>

text \<open>
  What the file-system notification library does in one call of \<^verbatim>\<open>watch\<close>: whether the
  watcher can be created, the directories it cannot subscribe to, and the file system
  found after the first event (\<open>None\<close> when no event or error ever arrives).
\<close>

record fsevent =
  watcherOk :: bool
  unwatchable :: "string set"
  change :: "(string \<rightharpoonup> entry) option"

fun addWatches :: "string list \<Rightarrow> fsevent \<Rightarrow> world \<Rightarrow> error option \<times> world" where
  "addWatches [] ev w = (None, w)"
| "addWatches (d # ds) ev w =
     (if d \<in> unwatchable ev then (Some (ErrWatchAdd d), w)
      else addWatches ds ev (w\<lparr>logs := logs w @ [LogWatching d]\<rparr>))"

definition watch :: "'pc fsSort \<Rightarrow> fsevent \<Rightarrow> world \<Rightarrow> error option option \<times> world" where
  "watch fs ev w =
     (if length (dirs fs) = 0 then (Some (Some ErrNoDirsToWatch), w)
      else if \<not> watcherOk ev then (Some (Some ErrNewWatcher), w)
      else
        (case addWatches (dirs fs) ev w of
           (Some e, w1) \<Rightarrow> (Some (Some e), w1)
         | (None, w1) \<Rightarrow>
             (case change ev of
                None \<Rightarrow> (None, w1)
              | Some ns \<Rightarrow>
                  (Some None, w1\<lparr>nodes := ns,
                                 logs := logs w1 @ [LogChange (WatchDelay (config fs))]\<rparr>))))"

text \<open>
  One element per pass of the sort loop: the schedule of its dispatch and what its watch
  sees. When the passes run out at a dispatch the call has not returned.
\<close>

record pass =
  schedule :: "action list"
  event :: fsevent

fun loop :: "'pc env \<Rightarrow> 'pc fsSort \<Rightarrow> pass list \<Rightarrow> world \<Rightarrow> error option option \<times> 'pc fsSort \<times> world" where
  "loop env fs ps w =
     (let fs1 = fs\<lparr>sorts := [], dirs := []\<rparr> in
      case scan env fs1 w of
        (Some e, fs2, w2) \<Rightarrow> (Some (Some e), fs2, w2)
      | (None, fs2, w2) \<Rightarrow>
          if Watch (config fs2) \<and> length (dirs fs2) = 0
          then (Some (Some ErrNoDirsToWatch), fs2, w2)
          else
            (case ps of
               [] \<Rightarrow> (None, fs2, w2)
             | p # ps' \<Rightarrow>
                 (case sortAllFiles env fs2 (schedule p) w2 of
                    (None, w3) \<Rightarrow> (None, fs2, w3)
                  | (Some (Some e), w3) \<Rightarrow> (Some (Some e), fs2, w3)
                  | (Some None, w3) \<Rightarrow>
                      if \<not> Watch (config fs2) then (Some None, fs2, w3)
                      else
                        (case watch fs2 (event p) w3 of
                           (Some None, w4) \<Rightarrow> loop env fs2 ps' w4
                         | (Some (Some e), w4) \<Rightarrow> (Some (Some e), fs2, w4)
                         | (None, w4) \<Rightarrow> (None, fs2, w4)))))"

declare loop.simps [simp del]

definition FileSystemSort :: "'pc env \<Rightarrow> 'pc Config \<Rightarrow> pass list \<Rightarrow> world \<Rightarrow> error option option \<times> world" where
  "FileSystemSort env c0 ps w =
     (let c1 = (if MovieDir c0 = [] then c0\<lparr>MovieDir := ''.''\<rparr> else c0);
          c = (if TVDir c1 = [] then c1\<lparr>TVDir := ''.''\<rparr> else c1)
      in if Watch c \<and> \<not> Recursive c then (Some (Some ErrWatchNeedsRecursive), w)
         else if Overwrite c \<and> OverwriteIfLarger c then (Some (Some ErrOverwriteRedundant), w)
         else
           (let fs = \<lparr>config = c,
                      validExts = set (map (\<lambda>e. ''.'' @ e) (Split (Extensions c) CHR '','')),
                      sorts = [], dirs = [],
                      stats = \<lparr>found = 0, matched = 0, moved = 0\<rparr>\<rparr>
            in case loop env fs ps w of (r, fs', w') \<Rightarrow> (r, w')))"

section \<open>Concrete inputs\<close>

text \<open>
  A small installation used to run the definitions: one directory \<^verbatim>\<open>/in\<close> with an episode,
  its subtitles and a text file; the resolver knows the episode only.
\<close>

definition ex_dest :: string where
  "ex_dest = ''/tv/Show/Season 01/Show - S01E02.mkv''"

definition ex_env :: "unit env" where
  "ex_env =
     \<lparr>Sort = (\<lambda>p. if p = ''/in/Show.S01E02.mkv'' then Inr \<lparr>Path = p, MType = Series\<rparr>
                   else Inl (ErrResolver p)),
      PrettyPath = (\<lambda>r pc. Inr ''Show/Season 01/Show - S01E02.mkv''),
      Join = (\<lambda>a b. a @ ''/'' @ b),
      Dir = (\<lambda>p. rev (drop 1 (dropWhile (\<lambda>c. c \<noteq> CHR ''/'') (rev p))))\<rparr>"

definition ex_config :: "unit Config" where
  "ex_config =
     \<lparr>Targets = [''/in''], TVDir = ''/tv'', MovieDir = ''/movies'', PathConfig = (),
      Extensions = ''mkv,mp4'', Concurrency = 2, FileLimit = 100, Recursive = True,
      DryRun = False, SkipHidden = False, Overwrite = False, OverwriteIfLarger = False,
      Watch = False, WatchDelay = 0\<rparr>"

definition ex_in :: entry where
  "ex_in = Directory ''in'' 4096
     [Regular ''Show.S01E02.mkv'' 700, Regular ''Show.S01E02.srt'' 1, Regular ''notes.txt'' 5]"

definition ex_world :: world where
  "ex_world =
     \<lparr>nodes = [''/in'' \<mapsto> ex_in,
               ''/in/Show.S01E02.mkv'' \<mapsto> Regular ''Show.S01E02.mkv'' 700,
               ''/in/Show.S01E02.srt'' \<mapsto> Regular ''Show.S01E02.srt'' 1,
               ''/in/notes.txt'' \<mapsto> Regular ''notes.txt'' 5],
      locked = {}, trace = [], logs = []\<rparr>"

definition ex_file :: fileSort where
  "ex_file = \<lparr>idn = 1, path = ''/in/Show.S01E02.mkv'', info = Regular ''Show.S01E02.mkv'' 700,
              result = None, err = None\<rparr>"

definition ex_fs :: "unit Config \<Rightarrow> unit fsSort" where
  "ex_fs c = \<lparr>config = c, validExts = {''.mkv'', ''.mp4''},
             sorts = [(''/in/Show.S01E02.mkv'', ex_file)], dirs = [''/in''],
             stats = \<lparr>found = 3, matched = 1, moved = 0\<rparr>\<rparr>"

text \<open>The same installation with a file of the given size already at the destination.\<close>

definition ex_world_dest :: "int \<Rightarrow> world" where
  "ex_world_dest n =
     ex_world\<lparr>nodes := (nodes ex_world)(ex_dest \<mapsto> Regular ''Show - S01E02.mkv'' n)\<rparr>"

definition ex_result :: Result where
  "ex_result = \<lparr>Path = ''/in/Show.S01E02.mkv'', MType = Series\<rparr>"

text \<open>A fresh sorter, as \<^verbatim>\<open>FileSystemSort\<close> builds it for these extensions.\<close>

definition ex_fs0 :: "unit Config \<Rightarrow> unit fsSort" where
  "ex_fs0 c = \<lparr>config = c, validExts = {''.mkv'', ''.mp4''}, sorts = [], dirs = [],
              stats = \<lparr>found = 0, matched = 0, moved = 0\<rparr>\<rparr>"

text \<open>The installation with the subtitle file locked, so that it cannot be renamed.\<close>

definition ex_world_locked :: world where
  "ex_world_locked = ex_world\<lparr>locked := {''/in/Show.S01E02.srt''}\<rparr>"

text \<open>A dispatcher state in which the goroutine of the episode is about to sort it.\<close>

definition ex_dstate :: "world \<Rightarrow> dstate" where
  "ex_dstate w =
     \<lparr>waiting = [], running = [ex_file], holding = [], leaving = [], finished = [],
      outcomes = [], queue = 1, wg = 1, returned = False, dworld = w\<rparr>"

text \<open>A directory with two media files.\<close>

definition ex_in2 :: entry where
  "ex_in2 = Directory ''in'' 4096 [Regular ''a.mkv'' 10, Regular ''b.mkv'' 20]"

definition ex_world2 :: world where
  "ex_world2 =
     \<lparr>nodes = [''/in'' \<mapsto> ex_in2,
               ''/in/a.mkv'' \<mapsto> Regular ''a.mkv'' 10,
               ''/in/b.mkv'' \<mapsto> Regular ''b.mkv'' 20],
      locked = {}, trace = [], logs = []\<rparr>"

text \<open>
  A directory that holds a text file only, the file system after it has been replaced by
  a plain file, and a pass whose dispatch has nothing to do and whose watch sees that
  replacement.
\<close>

definition ex_world3 :: world where
  "ex_world3 =
     \<lparr>nodes = [''/in'' \<mapsto> Directory ''in'' 4096 [Regular ''notes.txt'' 5],
               ''/in/notes.txt'' \<mapsto> Regular ''notes.txt'' 5],
      locked = {}, trace = [], logs = []\<rparr>"

definition ex_nodes4 :: "string \<rightharpoonup> entry" where
  "ex_nodes4 = [''/in'' \<mapsto> Regular ''in'' 5]"

definition ex_pass :: pass where
  "ex_pass = \<lparr>schedule = [Return],
              event = \<lparr>watcherOk = True, unwatchable = {}, change = Some ex_nodes4\<rparr>\<rparr>"

text \<open>
  The watching configuration, and the sorter and the world after the first scan of that
  directory and after the watch.
\<close>

definition ex_watch_config :: "unit Config" where
  "ex_watch_config = ex_config\<lparr>Watch := True\<rparr>"

definition ex_fs3 :: "unit fsSort" where
  "ex_fs3 = (ex_fs0 ex_watch_config)
              \<lparr>dirs := [''/in''], stats := \<lparr>found = 1, matched = 0, moved = 0\<rparr>\<rparr>"

definition ex_world3_scanned :: world where
  "ex_world3_scanned = ex_world3\<lparr>trace := [OpStat ''/in'', OpReadDir ''/in'']\<rparr>"

definition ex_world4 :: world where
  "ex_world4 = ex_world3_scanned\<lparr>nodes := ex_nodes4, logs := [LogWatching ''/in'', LogChange 0]\<rparr>"

text \<open>
  A candidate the resolver does not know, a sorter that holds it, a sorter with two
  candidates and room for one task, and the schedule that lets one candidate run from
  start to end before the call returns.
\<close>

definition ex_file_bad :: fileSort where
  "ex_file_bad = \<lparr>idn = 1, path = ''/in/unknown.mkv'', info = Regular ''unknown.mkv'' 9,
                  result = None, err = None\<rparr>"

definition ex_fs_bad :: "unit fsSort" where
  "ex_fs_bad = (ex_fs0 ex_config)\<lparr>sorts := [(''/in/unknown.mkv'', ex_file_bad)]\<rparr>"

definition ex_fs_two :: "unit fsSort" where
  "ex_fs_two = (ex_fs0 (ex_config\<lparr>Concurrency := 1\<rparr>))
                 \<lparr>sorts := [(''/in/Show.S01E02.mkv'', ex_file), (''/in/unknown.mkv'', ex_file_bad)]\<rparr>"

definition ex_schedule :: "action list" where
  "ex_schedule = [Spawn 0, Work 0, Release 0, Finish 0, Return]"

section \<open>Notions used in the statements and proofs\<close>

text \<open>
  How a sorter may differ after a scan step: the configuration and the extensions are
  the same, candidates and directories are only added, the number of candidates stays
  within the larger of the file limit and what it was, and the counters do not decrease.
\<close>

definition grows :: "'pc fsSort \<Rightarrow> 'pc fsSort \<Rightarrow> bool" where
  "grows fs fs' \<longleftrightarrow>
     config fs' = config fs \<and> validExts fs' = validExts fs
     \<and> length (sorts fs) \<le> length (sorts fs')
     \<and> int (length (sorts fs')) \<le> max (FileLimit (config fs)) (int (length (sorts fs)))
     \<and> fst ` set (sorts fs) \<subseteq> fst ` set (sorts fs')
     \<and> set (dirs fs) \<subseteq> set (dirs fs')
     \<and> found (stats fs) \<le> found (stats fs')
     \<and> matched (stats fs) \<le> matched (stats fs')
     \<and> moved (stats fs') = moved (stats fs)"

text \<open>
  What holds of the dispatcher in every state it can reach: each goroutine that has not
  yet received from \<^verbatim>\<open>queue\<close> accounts for one element in the channel, the wait-group counter
  counts the goroutines that have not called \<^verbatim>\<open>wg.Done()\<close>, the channel holds no more than
  its capacity, every candidate is in exactly one place, the recorded outcomes are those
  of the candidates whose \<^verbatim>\<open>fs.sortFile\<close> has run, the call has returned only after the
  loop and the wait, and every recorded error has its line in the log.
\<close>

definition dinv :: "'pc fsSort \<Rightarrow> dstate \<Rightarrow> bool" where
  "dinv fs s \<longleftrightarrow>
     length (running s) + length (holding s) = queue s
     \<and> wg s = length (running s) + length (holding s) + length (leaving s)
     \<and> int (queue s) \<le> max 0 (Concurrency (config fs))
     \<and> mset (waiting s) + mset (running s) + mset (holding s) + mset (leaving s)
          + mset (finished s) = mset (map snd (sorts fs))
     \<and> mset (map fst (outcomes s)) = mset (holding s) + mset (leaving s) + mset (finished s)
     \<and> (returned s \<longrightarrow> waiting s = [] \<and> wg s = 0)
     \<and> (\<forall>x\<in>set (outcomes s). \<forall>e. snd x = Some e \<longrightarrow>
           LogFail (idn (fst x)) (length (sorts fs)) (path (fst x)) e \<in> set (logs (dworld s)))"

text \<open>The work the dispatcher still has to do; every step lowers it.\<close>

definition dmeasure :: "dstate \<Rightarrow> nat" where
  "dmeasure s =
     4 * length (waiting s) + 3 * length (running s) + 2 * length (holding s)
     + length (leaving s) + (if returned s then 0 else 1)"

text \<open>The sorter with its counters raised by \<open>d\<close>.\<close>

definition bump :: "stats \<Rightarrow> 'pc fsSort \<Rightarrow> 'pc fsSort" where
  "bump d fs =
     fs\<lparr>stats := \<lparr>found = found (stats fs) + found d,
                     matched = matched (stats fs) + matched d,
                     moved = moved (stats fs) + moved d\<rparr>\<rparr>"

lemmas ex_defs =
  ex_env_def ex_config_def ex_in_def ex_world_def ex_file_def ex_fs_def ex_dest_def
  ex_world_dest_def ex_result_def ex_fs0_def ex_world_locked_def ex_dstate_def ex_in2_def
  ex_world2_def ex_world3_def ex_nodes4_def ex_pass_def ex_watch_config_def ex_fs3_def
  ex_world3_scanned_def ex_world4_def ex_file_bad_def ex_fs_bad_def ex_fs_two_def
  ex_schedule_def

lemmas placer_defs =
  sortFile_def destination_def checkExists_def moveSubs_def srtPath_def
  os_Stat_def os_MkdirAll_def os_Rename_def base_def
  TrimSuffix_def HasSuffix_def HasPrefix_def Ext_def

section \<open>Configuration is validated before anything else\<close>

text \<open>
  C4. When both overwrite flags are set, or watch is set without recursive,
  \<^verbatim>\<open>FileSystemSort\<close> returns the matching error and leaves the world exactly as it found it:
  no system call in the trace, no log line, no change to the file system.
\<close>

theorem C4_validation_first:
  assumes "(Overwrite c \<and> OverwriteIfLarger c) \<or> (Watch c \<and> \<not> Recursive c)"
  shows "FileSystemSort env c ps w =
           (Some (Some (if Watch c \<and> \<not> Recursive c then ErrWatchNeedsRecursive
                        else ErrOverwriteRedundant)), w)"
  using assms by (auto simp: FileSystemSort_def Let_def)

theorem C4_validation_first_witness:
  "(Overwrite (ex_config\<lparr>Overwrite := True, OverwriteIfLarger := True\<rparr>)
      \<and> OverwriteIfLarger (ex_config\<lparr>Overwrite := True, OverwriteIfLarger := True\<rparr>))
   \<and> FileSystemSort ex_env (ex_config\<lparr>Overwrite := True, OverwriteIfLarger := True\<rparr>) [] ex_world
       = (Some (Some ErrOverwriteRedundant), ex_world)"
  using C4_validation_first
    [of "ex_config\<lparr>Overwrite := True, OverwriteIfLarger := True\<rparr>" ex_env "[]" ex_world]
  by (simp add: ex_config_def)

section \<open>The collision policy of the placer\<close>

text \<open>What the check for an existing destination answers, and that it only stats.\<close>

lemma checkExists_result:
  "fst (checkExists fs file newPath w) =
     (case nodes w newPath of
        None \<Rightarrow> None
      | Some newInfo \<Rightarrow>
          if Overwrite (config fs)
             \<or> (OverwriteIfLarger (config fs) \<and> Size newInfo > Size (info file))
          then None else Some (ErrFileExists newPath))"
  by (auto simp: checkExists_def os_Stat_def Let_def split: option.splits)

lemma checkExists_world:
  "snd (checkExists fs file newPath w) = w\<lparr>trace := trace w @ [OpStat newPath]\<rparr>"
  by (auto simp: checkExists_def os_Stat_def Let_def split: option.splits)

text \<open>
  C1. With overwrite-if-larger set, a file of 700 bytes is moved onto a destination that
  holds 100 bytes: the claim has the destination overwritten, the code refuses with the
  already-exists error after a single stat. With 900 bytes at the destination the code
  overwrites them with the 700.
\<close>

theorem C1_larger_source_is_refused:
  "sortFile ex_env (ex_fs (ex_config\<lparr>OverwriteIfLarger := True\<rparr>)) ex_file (ex_world_dest 100)
     = (Some (ErrFileExists ex_dest),
        (ex_world_dest 100)\<lparr>trace := [OpStat ex_dest],
                            logs := [LogMove 1 1 ''/in/Show.S01E02.mkv'' ex_dest]\<rparr>)
   \<and> fst (sortFile ex_env (ex_fs (ex_config\<lparr>OverwriteIfLarger := True\<rparr>)) ex_file
            (ex_world_dest 900)) = None
   \<and> nodes (snd (sortFile ex_env (ex_fs (ex_config\<lparr>OverwriteIfLarger := True\<rparr>)) ex_file
            (ex_world_dest 900))) ex_dest = Some (Regular ''Show - S01E02.mkv'' 700)"
  by (simp add: placer_defs ex_defs Let_def)

section \<open>Dry run\<close>

text \<open>
  C5. With dry-run set the placer makes no system call and changes nothing in the file
  system, whatever the resolver answers and whatever is at the destination; when the
  destination can be computed it logs the intended move and returns success.
\<close>

theorem C5_dry_run_touches_nothing:
  assumes "DryRun (config fs)"
  shows "nodes (snd (sortFile env fs file w)) = nodes w
       \<and> locked (snd (sortFile env fs file w)) = locked w
       \<and> trace (snd (sortFile env fs file w)) = trace w
       \<and> (\<forall>r newPath. Sort env (path file) = Inr r \<longrightarrow> destination env fs r = Inr newPath \<longrightarrow>
            sortFile env fs file w =
              (None, w\<lparr>logs := logs w @
                         [LogMove (idn file) (length (sorts fs)) (Path r) newPath]\<rparr>))"
  using assms by (auto simp: sortFile_def Let_def split: sum.splits)

theorem C5_dry_run_touches_nothing_witness:
  "DryRun (config (ex_fs (ex_config\<lparr>DryRun := True\<rparr>)))
   \<and> Sort ex_env (path ex_file) = Inr ex_result
   \<and> destination ex_env (ex_fs (ex_config\<lparr>DryRun := True\<rparr>)) ex_result = Inr ex_dest
   \<and> nodes (ex_world_dest 100) ex_dest \<noteq> None
   \<and> sortFile ex_env (ex_fs (ex_config\<lparr>DryRun := True\<rparr>)) ex_file (ex_world_dest 100)
       = (None, (ex_world_dest 100)\<lparr>logs := [LogMove 1 1 ''/in/Show.S01E02.mkv'' ex_dest]\<rparr>)"
  using C5_dry_run_touches_nothing
    [of "ex_fs (ex_config\<lparr>DryRun := True\<rparr>)" ex_env ex_file "ex_world_dest 100"]
  by (simp add: destination_def ex_defs)

section \<open>The subtitle file\<close>

text \<open>
  C8. Once the main file has been renamed, \<^verbatim>\<open>sortFile\<close> succeeds whatever happens to the
  subtitle file: it stats the \<^verbatim>\<open>.srt\<close> path beside the source and, when that exists, renames
  it to the \<^verbatim>\<open>.srt\<close> path beside the destination (which moves it when neither path is
  locked); the outcome of that rename is not looked at. The candidate's log holds the
  line of the move only, and the dispatcher records a success and logs no failure.
\<close>

theorem C8_subtitle_move_is_best_effort:
  assumes "Sort env (path file) = Inr r"
    and "destination env fs r = Inr newPath"
    and "\<not> DryRun (config fs)"
    and "Path r \<noteq> newPath"
    and "checkExists fs file newPath
           (w\<lparr>logs := logs w @ [LogMove (idn file) (length (sorts fs)) (Path r) newPath]\<rparr>)
         = (None, w2)"
    and "os_MkdirAll (Dir env newPath) w2 = (None, w3)"
    and "os_Rename (Path r) newPath w3 = (None, w4)"
  shows "fst (sortFile env fs file w) = None
       \<and> logs (snd (sortFile env fs file w))
           = logs w @ [LogMove (idn file) (length (sorts fs)) (Path r) newPath]
       \<and> trace (snd (sortFile env fs file w))
           = trace w4 @
             (if nodes w4 (srtPath (Path r)) = None then [OpStat (srtPath (Path r))]
              else [OpStat (srtPath (Path r)), OpRename (srtPath (Path r)) (srtPath newPath)])
       \<and> (\<forall>i. nodes w4 (srtPath (Path r)) = Some i \<and> srtPath (Path r) \<notin> locked w4
               \<and> srtPath newPath \<notin> locked w4 \<longrightarrow>
             nodes (snd (sortFile env fs file w)) (srtPath newPath)
               = Some (setName (base (srtPath newPath)) i))
       \<and> (\<forall>s i. i < length (running s) \<and> running s ! i = file \<and> dworld s = w \<longrightarrow>
             (\<exists>s'. dstep env fs (Work i) s = Some s'
                \<and> outcomes s' = outcomes s @ [(file, None)]
                \<and> logs (dworld s')
                    = logs w @ [LogMove (idn file) (length (sorts fs)) (Path r) newPath]))"
proof -
  let ?l = "LogMove (idn file) (length (sorts fs)) (Path r) newPath"
  have sf: "sortFile env fs file w = (None, moveSubs r newPath w4)"
    using assms by (simp add: sortFile_def Let_def)
  have l2: "logs w2 = logs w @ [?l]"
    using assms(5) checkExists_world [of fs "file" newPath "w\<lparr>logs := logs w @ [?l]\<rparr>"]
    by simp
  have l3: "logs w3 = logs w2"
    using assms(6) by (auto simp: os_MkdirAll_def Let_def split: option.splits if_splits)
  have l4: "logs w4 = logs w3"
    using assms(7) by (auto simp: os_Rename_def Let_def split: option.splits if_splits)
  have lm: "logs (moveSubs r newPath w4) = logs w4"
    by (auto simp: moveSubs_def os_Stat_def os_Rename_def Let_def split: option.splits)
  have tr: "trace (moveSubs r newPath w4)
           = trace w4 @
             (if nodes w4 (srtPath (Path r)) = None then [OpStat (srtPath (Path r))]
              else [OpStat (srtPath (Path r)), OpRename (srtPath (Path r)) (srtPath newPath)])"
    by (auto simp: moveSubs_def os_Stat_def os_Rename_def Let_def split: option.splits)
  have mv: "\<forall>i. nodes w4 (srtPath (Path r)) = Some i \<and> srtPath (Path r) \<notin> locked w4
               \<and> srtPath newPath \<notin> locked w4 \<longrightarrow>
             nodes (moveSubs r newPath w4) (srtPath newPath)
               = Some (setName (base (srtPath newPath)) i)"
    by (auto simp: moveSubs_def os_Stat_def os_Rename_def Let_def split: option.splits)
  have ds: "\<forall>s i. i < length (running s) \<and> running s ! i = file \<and> dworld s = w \<longrightarrow>
             (\<exists>s'. dstep env fs (Work i) s = Some s'
                \<and> outcomes s' = outcomes s @ [(file, None)]
                \<and> logs (dworld s') = logs w @ [?l])"
    using sf lm l4 l3 l2 by (auto simp: Let_def)
  show ?thesis using sf lm l4 l3 l2 tr mv ds by simp
qed

text \<open>
  In the installation with the subtitle file locked the episode is moved, the rename of
  the subtitles fails, and the candidate still succeeds.
\<close>

theorem C8_subtitle_move_is_best_effort_witness:
  "Sort ex_env (path ex_file) = Inr ex_result
   \<and> destination ex_env (ex_fs ex_config) ex_result = Inr ex_dest
   \<and> \<not> DryRun (config (ex_fs ex_config))
   \<and> Path ex_result \<noteq> ex_dest
   \<and> nodes ex_world_locked (srtPath (Path ex_result)) \<noteq> None
   \<and> srtPath (Path ex_result) \<in> locked ex_world_locked
   \<and> sortFile ex_env (ex_fs ex_config) ex_file ex_world_locked
       = (None,
          ex_world_locked
            \<lparr>nodes := ((nodes ex_world_locked)
                 (''/tv/Show/Season 01'' \<mapsto> Directory ''Season 01'' 0 [],
                  ''/in/Show.S01E02.mkv'' := None,
                  ex_dest \<mapsto> Regular ''Show - S01E02.mkv'' 700)),
             trace := [OpStat ex_dest, OpMkdirAll ''/tv/Show/Season 01'',
                       OpRename ''/in/Show.S01E02.mkv'' ex_dest,
                       OpStat ''/in/Show.S01E02.srt'',
                       OpRename ''/in/Show.S01E02.srt'' ''/tv/Show/Season 01/Show - S01E02.srt''],
             logs := [LogMove 1 1 ''/in/Show.S01E02.mkv'' ex_dest]\<rparr>)
   \<and> dstep ex_env (ex_fs ex_config) (Work 0) (ex_dstate ex_world_locked)
       = Some ((ex_dstate (snd (sortFile ex_env (ex_fs ex_config) ex_file ex_world_locked)))
                 \<lparr>running := [], holding := [ex_file], outcomes := [(ex_file, None)]\<rparr>)"
proof -
  let ?w1 = "ex_world_locked\<lparr>logs := logs ex_world_locked @
     [LogMove (idn ex_file) (length (sorts (ex_fs ex_config))) (Path ex_result) ex_dest]\<rparr>"
  let ?w2 = "snd (checkExists (ex_fs ex_config) ex_file ex_dest ?w1)"
  let ?w3 = "snd (os_MkdirAll (Dir ex_env ex_dest) ?w2)"
  let ?w4 = "snd (os_Rename (Path ex_result) ex_dest ?w3)"
  have h1: "Sort ex_env (path ex_file) = Inr ex_result" by (simp add: ex_defs)
  have h2: "destination ex_env (ex_fs ex_config) ex_result = Inr ex_dest"
    by (simp add: destination_def ex_defs)
  have h3: "\<not> DryRun (config (ex_fs ex_config))" by (simp add: ex_defs)
  have h4: "Path ex_result \<noteq> ex_dest" by (simp add: ex_defs)
  have h5: "checkExists (ex_fs ex_config) ex_file ex_dest ?w1 = (None, ?w2)"
    by (simp add: placer_defs ex_defs)
  have h6: "os_MkdirAll (Dir ex_env ex_dest) ?w2 = (None, ?w3)"
    by (simp add: placer_defs ex_defs)
  have h7: "os_Rename (Path ex_result) ex_dest ?w3 = (None, ?w4)"
    by (simp add: placer_defs ex_defs)
  note th = C8_subtitle_move_is_best_effort [OF h1 h2 h3 h4 h5 h6 h7]
  show ?thesis using th h1 h2 h3 h4
    by (simp add: placer_defs ex_defs Let_def dropAt_def)
qed

section \<open>What a scan step can change\<close>

lemma grows_refl: "grows fs fs"
  by (simp add: grows_def)

lemma grows_trans:
  assumes "grows a b" and "grows b c"
  shows "grows a c"
proof -
  have cb: "config b = config a" and cc: "config c = config b"
    and vb: "validExts b = validExts a" and vc: "validExts c = validExts b"
    and l1: "length (sorts a) \<le> length (sorts b)" and l2: "length (sorts b) \<le> length (sorts c)"
    and n1: "int (length (sorts b)) \<le> max (FileLimit (config a)) (int (length (sorts a)))"
    and n2: "int (length (sorts c)) \<le> max (FileLimit (config b)) (int (length (sorts b)))"
    and k1: "fst ` set (sorts a) \<subseteq> fst ` set (sorts b)"
    and k2: "fst ` set (sorts b) \<subseteq> fst ` set (sorts c)"
    and d1: "set (dirs a) \<subseteq> set (dirs b)" and d2: "set (dirs b) \<subseteq> set (dirs c)"
    and f1: "found (stats a) \<le> found (stats b)" and f2: "found (stats b) \<le> found (stats c)"
    and m1: "matched (stats a) \<le> matched (stats b)"
    and m2: "matched (stats b) \<le> matched (stats c)"
    and v1: "moved (stats b) = moved (stats a)" and v2: "moved (stats c) = moved (stats b)"
    using assms by (simp_all add: grows_def)
  have n: "int (length (sorts c)) \<le> max (FileLimit (config a)) (int (length (sorts a)))"
    using n1 n2 [unfolded cb] by linarith
  have k: "fst ` set (sorts a) \<subseteq> fst ` set (sorts c)"
    using k1 k2 by (rule subset_trans)
  have d: "set (dirs a) \<subseteq> set (dirs c)"
    using d1 d2 by (rule subset_trans)
  show ?thesis
    unfolding grows_def
    using cb cc vb vc l1 l2 n k d f1 f2 m1 m2 v1 v2 by simp
qed



lemma length_put:
  "length (put k v xs) = (if k \<in> fst ` set xs then length xs else Suc (length xs))"
  by (induction xs) auto

lemma keys_put: "fst ` set (put k v xs) = insert k (fst ` set xs)"
  by (induction xs) auto

lemma add_regular:
  "add env p (Regular n s) fs w =
     (if SkipHidden (config fs) \<and> HasPrefix n ''.'' then (None, fs, w)
      else if FileLimit (config fs) \<le> int (length (sorts fs)) then (None, fs, w)
      else if Ext p \<notin> validExts fs
        then (None, fs\<lparr>stats := (stats fs)\<lparr>found := found (stats fs) + 1\<rparr>\<rparr>, w)
      else (None,
            fs\<lparr>sorts := put p \<lparr>idn = int (length (sorts fs)) + 1, path = p,
                                info = Regular n s, result = None, err = None\<rparr> (sorts fs),
               stats := (stats fs)\<lparr>found := found (stats fs) + 1,
                                   matched := matched (stats fs) + 1\<rparr>\<rparr>, w))"
  by (subst add.simps) (simp add: Let_def)

lemma add_regular_grows: "grows fs (fst (snd (add env p (Regular n s) fs w)))"
  unfolding add_regular grows_def
  by (simp add: length_put keys_put subset_insertI)

text \<open>
  The loop over a listing inherits what holds of each call of \<^verbatim>\<open>add\<close> in it; \<^verbatim>\<open>add\<close> itself
  is handled by induction on the directory tree.
\<close>

lemma addAll_grows:
  assumes "\<And>q i fs w. i \<in> set infos \<Longrightarrow> grows fs (fst (snd (add env q i fs w)))"
  shows "grows fs (fst (snd (addAll env p infos fs w)))"
  using assms
proof (induction infos arbitrary: fs w)
  case Nil
  show ?case by (simp add: grows_refl)
next
  case (Cons i infos)
  obtain r fs1 w1 where a: "add env (Join env p (Name i)) i fs w = (r, fs1, w1)"
    by (cases "add env (Join env p (Name i)) i fs w") auto
  have g1: "grows fs fs1"
    using Cons.prems [of i fs "Join env p (Name i)" w] a by simp
  have g2: "grows fs1 (fst (snd (addAll env p infos fs1 w1)))"
    by (rule Cons.IH) (simp add: Cons.prems)
  show ?case
  proof (cases r)
    case None
    then have "addAll env p (i # infos) fs w = addAll env p infos fs1 w1"
      using a by simp
    then show ?thesis using grows_trans [OF g1 g2] by simp
  next
    case (Some e)
    then have "addAll env p (i # infos) fs w = (Some e, fs1, w1)"
      using a by simp
    then show ?thesis using g1 by simp
  qed
qed

lemma add_directory:
  "add env p (Directory n s infos) fs w =
     (if SkipHidden (config fs) \<and> HasPrefix n ''.'' then (None, fs, w)
      else if FileLimit (config fs) \<le> int (length (sorts fs)) then (None, fs, w)
      else if \<not> Recursive (config fs) then (Some ErrRecursiveRequired, fs, w)
      else addAll env p infos (fs\<lparr>dirs := List.insert p (dirs fs)\<rparr>)
             (w\<lparr>trace := trace w @ [OpReadDir p]\<rparr>))"
  by (subst add.simps) (simp add: Let_def)

lemma add_dirNoList:
  "add env p (DirNoList n s) fs w =
     (if SkipHidden (config fs) \<and> HasPrefix n ''.'' then (None, fs, w)
      else if FileLimit (config fs) \<le> int (length (sorts fs)) then (None, fs, w)
      else if \<not> Recursive (config fs) then (Some ErrRecursiveRequired, fs, w)
      else (Some (ErrReadDir p), fs\<lparr>dirs := List.insert p (dirs fs)\<rparr>,
            w\<lparr>trace := trace w @ [OpReadDir p]\<rparr>))"
  by (subst add.simps) (simp add: Let_def)

lemma add_special: "add env p (Special n s) fs w = (None, fs, w)"
  by (subst add.simps) simp

lemmas add_cases = add_regular add_directory add_dirNoList add_special

lemma add_grows: "grows fs (fst (snd (add env p i fs w)))"
proof (induction i arbitrary: p fs w)
  case (Regular n s)
  show ?case by (rule add_regular_grows)
next
  case (Directory n s infos)
  let ?fs1 = "fs\<lparr>dirs := List.insert p (dirs fs)\<rparr>"
  let ?w1 = "w\<lparr>trace := trace w @ [OpReadDir p]\<rparr>"
  have g1: "grows fs ?fs1" by (simp add: grows_def subset_insertI)
  have g2: "grows ?fs1 (fst (snd (addAll env p infos ?fs1 ?w1)))"
    by (rule addAll_grows) (rule Directory.IH)
  show ?case
    using grows_trans [OF g1 g2] by (simp add: add_directory grows_refl)
next
  case (DirNoList n s)
  have g1: "grows fs (fs\<lparr>dirs := List.insert p (dirs fs)\<rparr>)"
    by (simp add: grows_def subset_insertI)
  show ?case
    using g1 by (simp add: add_dirNoList grows_refl)
next
  case (Special n s)
  show ?case by (simp add: add_special grows_refl)
qed

lemma scanTargets_grows: "grows fs (fst (snd (scanTargets env ts fs w)))"
proof (induction ts arbitrary: fs w)
  case Nil
  show ?case by (simp add: grows_refl)
next
  case (Cons t ts)
  show ?case
  proof (cases "nodes w t")
    case None
    then show ?thesis by (simp add: os_Stat_def grows_refl)
  next
    case (Some i)
    let ?w1 = "w\<lparr>trace := trace w @ [OpStat t]\<rparr>"
    obtain r fs1 w1 where a: "add env t i fs ?w1 = (r, fs1, w1)"
      by (cases "add env t i fs ?w1") auto
    have g1: "grows fs fs1" using add_grows [of fs env t i ?w1] a by simp
    have g2: "grows fs1 (fst (snd (scanTargets env ts fs1 w1)))" by (rule Cons.IH)
    show ?thesis
    proof (cases r)
      case None
      then have "scanTargets env (t # ts) fs w = scanTargets env ts fs1 w1"
        using Some a by (simp add: os_Stat_def)
      then show ?thesis using grows_trans [OF g1 g2] by simp
    next
      case (Some e)
      then have "scanTargets env (t # ts) fs w = (Some e, fs1, w1)"
        using \<open>nodes w t = Some i\<close> a by (simp add: os_Stat_def)
      then show ?thesis using g1 by simp
    qed
  qed
qed

lemma scan_grows: "grows fs (fst (snd (scan env fs w)))"
  using scanTargets_grows [of fs env "Targets (config fs)" w]
  by (auto simp: scan_def split: prod.splits option.splits)

lemma add_at_limit:
  "FileLimit (config fs) \<le> int (length (sorts fs)) \<Longrightarrow> add env p i fs w = (None, fs, w)"
  by (subst add.simps) simp

lemma addAll_at_limit:
  "FileLimit (config fs) \<le> int (length (sorts fs)) \<Longrightarrow> addAll env p infos fs w = (None, fs, w)"
  by (induction infos) (simp_all add: add_at_limit)

lemma add_not_recursive:
  assumes "\<not> Recursive (config fs)"
  shows "dirs (fst (snd (add env p i fs w))) = dirs fs \<and> snd (snd (add env p i fs w)) = w"
  using assms by (cases i) (simp_all add: add_cases)

lemma add_directory_not_recursive:
  assumes "\<not> Recursive (config fs)" and "IsDir i"
    and "\<not> (SkipHidden (config fs) \<and> HasPrefix (Name i) ''.'')"
    and "int (length (sorts fs)) < FileLimit (config fs)"
  shows "add env p i fs w = (Some ErrRecursiveRequired, fs, w)"
  using assms by (cases i) (simp_all add: add_cases)



text \<open>
  An error of \<^verbatim>\<open>add\<close> leaves the number of candidates below the file limit, and a scan
  changes nothing in the file system.
\<close>

lemma addAll_nodes:
  assumes "\<And>q i fs w. i \<in> set infos \<Longrightarrow> nodes (snd (snd (add env q i fs w))) = nodes w"
  shows "nodes (snd (snd (addAll env p infos fs w))) = nodes w"
  using assms
proof (induction infos arbitrary: fs w)
  case Nil
  show ?case by simp
next
  case (Cons i infos)
  obtain r fs1 w1 where a: "add env (Join env p (Name i)) i fs w = (r, fs1, w1)"
    by (cases "add env (Join env p (Name i)) i fs w") auto
  have n1: "nodes w1 = nodes w"
    using Cons.prems [of i "Join env p (Name i)" fs w] a by simp
  have n2: "nodes (snd (snd (addAll env p infos fs1 w1))) = nodes w1"
    by (rule Cons.IH) (simp add: Cons.prems)
  show ?case
    using a n1 n2 by (cases r) simp_all
qed

lemma add_nodes: "nodes (snd (snd (add env p i fs w))) = nodes w"
proof (induction i arbitrary: p fs w)
  case (Regular n s)
  show ?case by (simp add: add_regular)
next
  case (Directory n s infos)
  have "nodes (snd (snd (addAll env p infos (fs\<lparr>dirs := List.insert p (dirs fs)\<rparr>)
          (w\<lparr>trace := trace w @ [OpReadDir p]\<rparr>)))) = nodes (w\<lparr>trace := trace w @ [OpReadDir p]\<rparr>)"
    by (rule addAll_nodes) (rule Directory.IH)
  then show ?case by (simp add: add_directory)
next
  case (DirNoList n s)
  show ?case by (simp add: add_dirNoList)
next
  case (Special n s)
  show ?case by (simp add: add_special)
qed

lemma addAll_error_below_limit:
  assumes el: "\<And>q i fs w e. i \<in> set infos \<Longrightarrow> fst (add env q i fs w) = Some e \<Longrightarrow>
            int (length (sorts (fst (snd (add env q i fs w))))) < FileLimit (config fs)"
    and "fst (addAll env p infos fs w) = Some e"
  shows "int (length (sorts (fst (snd (addAll env p infos fs w))))) < FileLimit (config fs)"
  using assms
proof (induction infos arbitrary: fs w)
  case Nil
  then show ?case by simp
next
  case (Cons i infos)
  obtain r fs1 w1 where a: "add env (Join env p (Name i)) i fs w = (r, fs1, w1)"
    by (cases "add env (Join env p (Name i)) i fs w") auto
  have c1: "config fs1 = config fs"
    using add_grows [of fs env "Join env p (Name i)" i w] a by (simp add: grows_def)
  show ?case
  proof (cases r)
    case None
    then have eq: "addAll env p (i # infos) fs w = addAll env p infos fs1 w1"
      using a by simp
    have "int (length (sorts (fst (snd (addAll env p infos fs1 w1))))) < FileLimit (config fs1)"
    proof (rule Cons.IH)
      show "\<And>q i fs w e. i \<in> set infos \<Longrightarrow> fst (add env q i fs w) = Some e \<Longrightarrow>
            int (length (sorts (fst (snd (add env q i fs w))))) < FileLimit (config fs)"
        using Cons.prems(1) by simp
      show "fst (addAll env p infos fs1 w1) = Some e"
        using Cons.prems(2) eq by simp
    qed
    then show ?thesis using eq c1 by simp
  next
    case (Some e')
    then have "fst (add env (Join env p (Name i)) i fs w) = Some e'" using a by simp
    then have "int (length (sorts (fst (snd (add env (Join env p (Name i)) i fs w)))))
                 < FileLimit (config fs)"
      using Cons.prems(1) [of i "Join env p (Name i)" fs w e'] by simp
    then show ?thesis using a Some by simp
  qed
qed

lemma add_error_below_limit:
  "fst (add env p i fs w) = Some e \<Longrightarrow>
     int (length (sorts (fst (snd (add env p i fs w))))) < FileLimit (config fs)"
proof (induction i arbitrary: p fs w e)
  case (Regular n s)
  have "fst (add env p (Regular n s) fs w) = None"
    by (simp add: add_regular)
  with Regular.prems show ?case by simp
next
  case (Directory n s infos)
  let ?fs1 = "fs\<lparr>dirs := List.insert p (dirs fs)\<rparr>"
  let ?w1 = "w\<lparr>trace := trace w @ [OpReadDir p]\<rparr>"
  show ?case
  proof (cases "SkipHidden (config fs) \<and> HasPrefix n ''.''")
    case True
    then have "add env p (Directory n s infos) fs w = (None, fs, w)"
      by (simp add: add_directory)
    with Directory.prems show ?thesis by simp
  next
    case nh: False
    show ?thesis
    proof (cases "FileLimit (config fs) \<le> int (length (sorts fs))")
      case True
      then have "add env p (Directory n s infos) fs w = (None, fs, w)"
        using nh by (auto simp: add_directory)
      with Directory.prems show ?thesis by simp
    next
      case nl: False
      show ?thesis
      proof (cases "Recursive (config fs)")
        case False
        then have "add env p (Directory n s infos) fs w = (Some ErrRecursiveRequired, fs, w)"
          using nh nl by (auto simp: add_directory)
        then show ?thesis using nl by simp
      next
        case True
        then have eq: "add env p (Directory n s infos) fs w = addAll env p infos ?fs1 ?w1"
          using nh nl by (auto simp: add_directory)
        have "int (length (sorts (fst (snd (addAll env p infos ?fs1 ?w1)))))
                < FileLimit (config ?fs1)"
        proof (rule addAll_error_below_limit)
          show "\<And>q i fs w e. i \<in> set infos \<Longrightarrow> fst (add env q i fs w) = Some e \<Longrightarrow>
              int (length (sorts (fst (snd (add env q i fs w))))) < FileLimit (config fs)"
            using Directory.IH by simp
          show "fst (addAll env p infos ?fs1 ?w1) = Some e"
            using Directory.prems eq by simp
        qed
        then show ?thesis using eq by simp
      qed
    qed
  qed
next
  case (DirNoList n s)
  show ?case
  proof (cases "(SkipHidden (config fs) \<and> HasPrefix n ''.'')
                 \<or> FileLimit (config fs) \<le> int (length (sorts fs))")
    case True
    then have "add env p (DirNoList n s) fs w = (None, fs, w)"
      by (auto simp: add_dirNoList)
    with DirNoList.prems show ?thesis by simp
  next
    case False
    then show ?thesis by (auto simp: add_dirNoList)
  qed
next
  case (Special n s)
  then show ?case by (simp add: add_special)
qed

lemma scanTargets_error_below_limit:
  assumes "\<forall>t\<in>set ts. nodes w t \<noteq> None"
    and "fst (scanTargets env ts fs w) = Some e"
  shows "int (length (sorts (fst (snd (scanTargets env ts fs w))))) < FileLimit (config fs)"
  using assms
proof (induction ts arbitrary: fs w)
  case Nil
  then show ?case by simp
next
  case (Cons t ts)
  obtain i where i: "nodes w t = Some i" using Cons.prems(1) by auto
  let ?w1 = "w\<lparr>trace := trace w @ [OpStat t]\<rparr>"
  obtain r fs1 w1 where a: "add env t i fs ?w1 = (r, fs1, w1)"
    by (cases "add env t i fs ?w1") auto
  have c1: "config fs1 = config fs"
    using add_grows [of fs env t i ?w1] a by (simp add: grows_def)
  have n1: "nodes w1 = nodes w"
    using add_nodes [of env t i fs ?w1] a by simp
  show ?case
  proof (cases r)
    case None
    then have eq: "scanTargets env (t # ts) fs w = scanTargets env ts fs1 w1"
      using i a by (simp add: os_Stat_def)
    have "int (length (sorts (fst (snd (scanTargets env ts fs1 w1))))) < FileLimit (config fs1)"
    proof (rule Cons.IH)
      show "\<forall>t\<in>set ts. nodes w1 t \<noteq> None" using Cons.prems(1) n1 by simp
      show "fst (scanTargets env ts fs1 w1) = Some e" using Cons.prems(2) eq by simp
    qed
    then show ?thesis using eq c1 by simp
  next
    case (Some e')
    then have eq: "scanTargets env (t # ts) fs w = (Some e', fs1, w1)"
      using i a by (simp add: os_Stat_def)
    have "int (length (sorts (fst (snd (add env t i fs ?w1))))) < FileLimit (config fs)"
      by (rule add_error_below_limit [of env t i fs ?w1 e']) (simp add: a Some)
    then show ?thesis using eq a by simp
  qed
qed

lemma scan_at_limit_succeeds:
  assumes "1 \<le> FileLimit (config fs)"
    and "FileLimit (config fs) \<le> int (length (sorts (fst (snd (scan env fs w)))))"
    and "\<forall>t\<in>set (Targets (config fs)). nodes w t \<noteq> None"
  shows "fst (scan env fs w) = None"
proof -
  obtain r fs' w' where st: "scanTargets env (Targets (config fs)) fs w = (r, fs', w')"
    by (cases "scanTargets env (Targets (config fs)) fs w") auto
  have f: "fst (snd (scan env fs w)) = fs'"
    using st by (cases r) (simp_all add: scan_def)
  have r: "r = None"
  proof (cases r)
    case None
    then show ?thesis .
  next
    case (Some e)
    then have "int (length (sorts fs')) < FileLimit (config fs)"
      using scanTargets_error_below_limit [OF assms(3), of env fs e] st by simp
    then show ?thesis using assms(2) f by simp
  qed
  have "1 \<le> int (length (sorts fs'))"
    using assms(1,2) unfolding f by linarith
  then have "sorts fs' \<noteq> []" by auto
  then show ?thesis
    using st r by (simp add: scan_def)
qed


lemma scanTargets_at_limit:
  assumes "FileLimit (config fs) \<le> int (length (sorts fs))"
    and "\<forall>t\<in>set ts. nodes w t \<noteq> None"
  shows "scanTargets env ts fs w = (None, fs, w\<lparr>trace := trace w @ map OpStat ts\<rparr>)"
  using assms(2)
proof (induction ts arbitrary: w)
  case Nil
  show ?case by simp
next
  case (Cons t ts)
  obtain i where i: "nodes w t = Some i" using Cons.prems by auto
  let ?w1 = "w\<lparr>trace := trace w @ [OpStat t]\<rparr>"
  have a: "add env t i fs ?w1 = (None, fs, ?w1)"
    by (rule add_at_limit) (rule assms(1))
  have "scanTargets env ts fs ?w1 = (None, fs, ?w1\<lparr>trace := trace ?w1 @ map OpStat ts\<rparr>)"
    by (rule Cons.IH) (use Cons.prems in simp)
  then show ?case
    using i a by (simp add: os_Stat_def)
qed

lemma scanTargets_at_limit_any:
  assumes "FileLimit (config fs) \<le> int (length (sorts fs))"
  shows "fst (snd (scanTargets env ts fs w)) = fs
       \<and> fst (scanTargets env ts fs w) \<in> insert None (Some ` ErrStat ` set ts)"
proof (induction ts arbitrary: w)
  case Nil
  show ?case by simp
next
  case (Cons t ts)
  let ?w1 = "w\<lparr>trace := trace w @ [OpStat t]\<rparr>"
  show ?case
  proof (cases "nodes w t")
    case None
    then show ?thesis by (simp add: os_Stat_def)
  next
    case (Some i)
    have a: "add env t i fs ?w1 = (None, fs, ?w1)"
      by (rule add_at_limit) (rule assms)
    have "scanTargets env (t # ts) fs w = scanTargets env ts fs ?w1"
      using Some a by (simp add: os_Stat_def)
    then show ?thesis using Cons.IH [of ?w1] by auto
  qed
qed

lemma scan_without_candidates:
  assumes "FileLimit (config fs) \<le> int (length (sorts fs))"
    and "sorts fs = []" and "dirs fs = []"
  shows "fst (scan env fs w)
           \<in> Some ` insert (ErrNoSortableFiles (found (stats fs))) (ErrStat ` set (Targets (config fs)))
       \<and> ((\<forall>t\<in>set (Targets (config fs)). nodes w t \<noteq> None) \<longrightarrow>
            scan env fs w = (Some (ErrNoSortableFiles (found (stats fs))), fs,
                             w\<lparr>trace := trace w @ map OpStat (Targets (config fs))\<rparr>))"
proof -
  obtain r fs' w' where st: "scanTargets env (Targets (config fs)) fs w = (r, fs', w')"
    by (cases "scanTargets env (Targets (config fs)) fs w") auto
  have f: "fs' = fs" and r: "r \<in> insert None (Some ` ErrStat ` set (Targets (config fs)))"
    using scanTargets_at_limit_any [OF assms(1), of env "Targets (config fs)" w] st by simp_all
  have one: "fst (scan env fs w)
           \<in> Some ` insert (ErrNoSortableFiles (found (stats fs))) (ErrStat ` set (Targets (config fs)))"
  proof (cases r)
    case None
    then show ?thesis using st f assms(2,3) by (simp add: scan_def)
  next
    case (Some e)
    then have "e \<in> ErrStat ` set (Targets (config fs))" using r by auto
    then show ?thesis using st Some by (simp add: scan_def)
  qed
  have two: "(\<forall>t\<in>set (Targets (config fs)). nodes w t \<noteq> None) \<longrightarrow>
            scan env fs w = (Some (ErrNoSortableFiles (found (stats fs))), fs,
                             w\<lparr>trace := trace w @ map OpStat (Targets (config fs))\<rparr>)"
  proof
    assume "\<forall>t\<in>set (Targets (config fs)). nodes w t \<noteq> None"
    then have "scanTargets env (Targets (config fs)) fs w
                 = (None, fs, w\<lparr>trace := trace w @ map OpStat (Targets (config fs))\<rparr>)"
      by (rule scanTargets_at_limit [OF assms(1)])
    then show "scan env fs w = (Some (ErrNoSortableFiles (found (stats fs))), fs,
                             w\<lparr>trace := trace w @ map OpStat (Targets (config fs))\<rparr>)"
      using assms(2,3) by (simp add: scan_def)
  qed
  show ?thesis using one two by simp
qed

lemma loop_scan_error:
  "scan env (fs\<lparr>sorts := [], dirs := []\<rparr>) w = (Some e, fs2, w2) \<Longrightarrow>
     loop env fs ps w = (Some (Some e), fs2, w2)"
  by (subst loop.simps) simp

lemma FileSystemSort_valid:
  assumes "\<not> (Watch c \<and> \<not> Recursive c)" and "\<not> (Overwrite c \<and> OverwriteIfLarger c)"
  shows "\<exists>c'. FileLimit c' = FileLimit c \<and> Targets c' = Targets c \<and> Watch c' = Watch c
           \<and> Extensions c' = Extensions c
           \<and> FileSystemSort env c ps w =
               (case loop env \<lparr>config = c',
                       validExts = set (map (\<lambda>e. ''.'' @ e) (Split (Extensions c') CHR '','')),
                       sorts = [], dirs = [],
                       stats = \<lparr>found = 0, matched = 0, moved = 0\<rparr>\<rparr> ps w
                of (r, fs', w') \<Rightarrow> (r, w'))"
proof -
  let ?c1 = "if MovieDir c = [] then c\<lparr>MovieDir := ''.''\<rparr> else c"
  let ?c = "if TVDir ?c1 = [] then ?c1\<lparr>TVDir := ''.''\<rparr> else ?c1"
  have p: "FileLimit ?c = FileLimit c" "Targets ?c = Targets c" "Watch ?c = Watch c"
    "Extensions ?c = Extensions c" "Recursive ?c = Recursive c" "Overwrite ?c = Overwrite c"
    "OverwriteIfLarger ?c = OverwriteIfLarger c"
    by simp_all
  have "FileSystemSort env c ps w =
               (case loop env \<lparr>config = ?c,
                       validExts = set (map (\<lambda>e. ''.'' @ e) (Split (Extensions ?c) CHR '','')),
                       sorts = [], dirs = [],
                       stats = \<lparr>found = 0, matched = 0, moved = 0\<rparr>\<rparr> ps w
                of (r, fs', w') \<Rightarrow> (r, w'))"
    unfolding FileSystemSort_def Let_def using assms by auto
  then show ?thesis using p by blast
qed

text \<open>The first pass of the sort loop when its scan fails.\<close>

lemma FileSystemSort_first_scan_fails:
  assumes "\<not> (Watch c \<and> \<not> Recursive c)" and "\<not> (Overwrite c \<and> OverwriteIfLarger c)"
    and "MovieDir c \<noteq> []" and "TVDir c \<noteq> []"
    and "scan env \<lparr>config = c,
                    validExts = set (map (\<lambda>e. ''.'' @ e) (Split (Extensions c) CHR '','')),
                    sorts = [], dirs = [],
                    stats = \<lparr>found = 0, matched = 0, moved = 0\<rparr>\<rparr> w = (Some e, fs2, w2)"
  shows "FileSystemSort env c ps w = (Some (Some e), w2)"
proof -
  let ?fs = "\<lparr>config = c,
              validExts = set (map (\<lambda>e. ''.'' @ e) (Split (Extensions c) CHR '','')),
              sorts = [], dirs = [], stats = \<lparr>found = 0, matched = 0, moved = 0\<rparr>\<rparr>"
  have l: "loop env ?fs ps w = (Some (Some e), fs2, w2)"
    using loop_scan_error [of env ?fs w e fs2 w2 ps] assms(5) by simp
  have "FileSystemSort env c ps w = (case loop env ?fs ps w of (r, fs', w') \<Rightarrow> (r, w'))"
    unfolding FileSystemSort_def Let_def using assms(1-4) by auto
  then show ?thesis using l by simp
qed

text \<open>Raising the counters of a sorter changes nothing but the counters of the result.\<close>

lemma bump_fields [simp]:
  "config (bump d fs) = config fs" "validExts (bump d fs) = validExts fs"
  "sorts (bump d fs) = sorts fs" "dirs (bump d fs) = dirs fs"
  "found (stats (bump d fs)) = found (stats fs) + found d"
  "matched (stats (bump d fs)) = matched (stats fs) + matched d"
  "moved (stats (bump d fs)) = moved (stats fs) + moved d"
  by (simp_all add: bump_def)

















section \<open>Directories without recursion\<close>

text \<open>
  C2, as the code has it. With recursion disabled \<^verbatim>\<open>add\<close> returns the recursion-required
  error for every directory it examines (one that is not skipped as hidden, met while the
  file limit is not reached), and a directory that is an explicit target is such a
  directory: the loop over the targets stops there with that error. The directory is not
  recorded, nothing is listed, and the directory set never changes.
\<close>

theorem C2_directory_needs_recursion:
  assumes "\<not> Recursive (config fs)"
  shows "(IsDir i \<and> \<not> (SkipHidden (config fs) \<and> HasPrefix (Name i) ''.'')
            \<and> int (length (sorts fs)) < FileLimit (config fs) \<longrightarrow>
          add env p i fs w = (Some ErrRecursiveRequired, fs, w)
          \<and> scanTargets env (p # ts) fs (w\<lparr>nodes := (nodes w)(p \<mapsto> i)\<rparr>)
              = (Some ErrRecursiveRequired, fs,
                 w\<lparr>nodes := (nodes w)(p \<mapsto> i), trace := trace w @ [OpStat p]\<rparr>))
       \<and> dirs (fst (snd (add env p i fs w))) = dirs fs
       \<and> snd (snd (add env p i fs w)) = w"
  using assms add_not_recursive [of fs env p i w]
    add_directory_not_recursive [of fs i env p
      "w\<lparr>nodes := (nodes w)(p \<mapsto> i), trace := trace w @ [OpStat p]\<rparr>"]
    add_directory_not_recursive [of fs i env p w]
  by (auto simp: os_Stat_def)

text \<open>
  The claim as stated fails: the directory \<^verbatim>\<open>/in\<close> given as the only target, recursion
  disabled. The scan stops with the error after the stat, the directory set is empty, and
  \<^verbatim>\<open>FileSystemSort\<close> returns that error.
\<close>

theorem C2_explicit_directory_target_aborts:
  "scan ex_env (ex_fs0 (ex_config\<lparr>Recursive := False\<rparr>)) ex_world
     = (Some ErrRecursiveRequired, ex_fs0 (ex_config\<lparr>Recursive := False\<rparr>),
        ex_world\<lparr>trace := [OpStat ''/in'']\<rparr>)
   \<and> dirs (ex_fs0 (ex_config\<lparr>Recursive := False\<rparr>)) = []
   \<and> FileSystemSort ex_env (ex_config\<lparr>Recursive := False\<rparr>) [] ex_world
     = (Some (Some ErrRecursiveRequired), ex_world\<lparr>trace := [OpStat ''/in'']\<rparr>)"
proof -
  let ?fs = "ex_fs0 (ex_config\<lparr>Recursive := False\<rparr>)"
  have a: "add ex_env ''/in'' ex_in ?fs (ex_world\<lparr>trace := [OpStat ''/in'']\<rparr>)
             = (Some ErrRecursiveRequired, ?fs, ex_world\<lparr>trace := [OpStat ''/in'']\<rparr>)"
    by (rule add_directory_not_recursive) (simp_all add: ex_defs)
  have n: "nodes ex_world ''/in'' = Some ex_in" and t: "trace ex_world = []"
    by (simp_all add: ex_world_def)
  have c: "Targets (config ?fs) = [''/in'']"
    by (simp add: ex_fs0_def ex_config_def)
  have s: "scan ex_env ?fs ex_world
             = (Some ErrRecursiveRequired, ?fs, ex_world\<lparr>trace := [OpStat ''/in'']\<rparr>)"
    by (simp add: scan_def c os_Stat_def n t a)
  have r: "?fs\<lparr>sorts := [], dirs := []\<rparr> = ?fs"
    by (simp add: ex_fs0_def)
  have v: "set (map (\<lambda>e. ''.'' @ e) (Split ''mkv,mp4'' CHR '','')) = {''.mkv'', ''.mp4''}"
    by simp
  have f: "FileSystemSort ex_env (ex_config\<lparr>Recursive := False\<rparr>) [] ex_world
             = (case loop ex_env ?fs [] ex_world of (r, fs', w') \<Rightarrow> (r, w'))"
    unfolding FileSystemSort_def Let_def
    by (simp add: ex_config_def ex_fs0_def)
  have l: "loop ex_env ?fs [] ex_world
             = (Some (Some ErrRecursiveRequired), ?fs, ex_world\<lparr>trace := [OpStat ''/in'']\<rparr>)"
    by (subst loop.simps) (simp add: r s)
  show ?thesis
    using s f l by (simp add: ex_fs0_def)
qed

theorem C2_directory_needs_recursion_witness:
  "\<not> Recursive (config (ex_fs0 (ex_config\<lparr>Recursive := False\<rparr>)))
   \<and> IsDir ex_in
   \<and> int (length (sorts (ex_fs0 (ex_config\<lparr>Recursive := False\<rparr>))))
       < FileLimit (config (ex_fs0 (ex_config\<lparr>Recursive := False\<rparr>)))
   \<and> add ex_env ''/in'' ex_in (ex_fs0 (ex_config\<lparr>Recursive := False\<rparr>)) ex_world
       = (Some ErrRecursiveRequired, ex_fs0 (ex_config\<lparr>Recursive := False\<rparr>), ex_world)"
  using C2_directory_needs_recursion
    [of "ex_fs0 (ex_config\<lparr>Recursive := False\<rparr>)" ex_in ex_env "''/in''" ex_world "[]"]
  by (simp add: ex_in_def ex_fs0_def ex_config_def)

section \<open>The file limit\<close>

text \<open>
  C9, as the code has it. No call of \<^verbatim>\<open>add\<close>, at any depth of the traversal, takes the number
  of candidates beyond the file limit (or beyond what it already was), and none removes a
  candidate's path. Once the number has reached the limit, \<^verbatim>\<open>add\<close>, the loop over the rest
  of a listing and the loop over the remaining targets (when they can be stat'ed) return
  \<^verbatim>\<open>nil\<close> and leave the sorter as it is: nothing is added, nothing is lost, nothing fails.
  A scan that starts without candidates ends within the limit. For a file limit of at
  least 1, a scan that ends with the limit reached returns \<^verbatim>\<open>nil\<close> when every target could
  be stat'ed: reaching the limit does not make it fail.
\<close>

theorem C9_file_limit_is_a_soft_cap:
  "int (length (sorts (fst (snd (add env p i fs w)))))
     \<le> max (FileLimit (config fs)) (int (length (sorts fs)))
   \<and> fst ` set (sorts fs) \<subseteq> fst ` set (sorts (fst (snd (add env p i fs w))))
   \<and> (FileLimit (config fs) \<le> int (length (sorts fs)) \<longrightarrow>
        add env p i fs w = (None, fs, w) \<and> addAll env p infos fs w = (None, fs, w))
   \<and> (sorts fs = [] \<longrightarrow>
        int (length (sorts (fst (snd (scan env fs w))))) \<le> max 0 (FileLimit (config fs)))
   \<and> (FileLimit (config fs) \<le> int (length (sorts fs)) \<and> (\<forall>t\<in>set ts. nodes w t \<noteq> None) \<longrightarrow>
        scanTargets env ts fs w = (None, fs, w\<lparr>trace := trace w @ map OpStat ts\<rparr>))
   \<and> (1 \<le> FileLimit (config fs)
        \<and> FileLimit (config fs) \<le> int (length (sorts (fst (snd (scan env fs w)))))
        \<and> (\<forall>t\<in>set (Targets (config fs)). nodes w t \<noteq> None) \<longrightarrow>
        fst (scan env fs w) = None)"
proof -
  have a: "int (length (sorts (fst (snd (add env p i fs w)))))
             \<le> max (FileLimit (config fs)) (int (length (sorts fs)))"
    and k: "fst ` set (sorts fs) \<subseteq> fst ` set (sorts (fst (snd (add env p i fs w))))"
    using add_grows [of fs env p i w] by (simp_all add: grows_def)
  have s: "sorts fs = [] \<longrightarrow>
        int (length (sorts (fst (snd (scan env fs w))))) \<le> max 0 (FileLimit (config fs))"
  proof
    assume e: "sorts fs = []"
    have "int (length (sorts (fst (snd (scan env fs w)))))
            \<le> max (FileLimit (config fs)) (int (length (sorts fs)))"
      using scan_grows [of fs env w] by (simp add: grows_def)
    then show "int (length (sorts (fst (snd (scan env fs w))))) \<le> max 0 (FileLimit (config fs))"
      by (simp add: e max.commute)
  qed
  have l: "FileLimit (config fs) \<le> int (length (sorts fs)) \<longrightarrow>
        add env p i fs w = (None, fs, w) \<and> addAll env p infos fs w = (None, fs, w)"
    using add_at_limit [of fs env p i w] addAll_at_limit [of fs env p infos w] by simp
  have t: "FileLimit (config fs) \<le> int (length (sorts fs)) \<and> (\<forall>t\<in>set ts. nodes w t \<noteq> None) \<longrightarrow>
        scanTargets env ts fs w = (None, fs, w\<lparr>trace := trace w @ map OpStat ts\<rparr>)"
    using scanTargets_at_limit [of fs ts w env] by blast
  have r: "1 \<le> FileLimit (config fs)
        \<and> FileLimit (config fs) \<le> int (length (sorts (fst (snd (scan env fs w)))))
        \<and> (\<forall>t\<in>set (Targets (config fs)). nodes w t \<noteq> None) \<longrightarrow>
        fst (scan env fs w) = None"
    using scan_at_limit_succeeds [of fs env w] by blast
  show ?thesis
    using a k s l t r by blast
qed

text \<open>
  The claim as stated fails for a file limit of 0: the limit is reached before anything
  is added, and the scan of the directory \<^verbatim>\<open>/in\<close> fails with the no-sortable-files error.
\<close>

theorem C9_zero_limit_fails_the_scan:
  "FileLimit (config (ex_fs0 (ex_config\<lparr>FileLimit := 0\<rparr>)))
     \<le> int (length (sorts (ex_fs0 (ex_config\<lparr>FileLimit := 0\<rparr>))))
   \<and> scan ex_env (ex_fs0 (ex_config\<lparr>FileLimit := 0\<rparr>)) ex_world
       = (Some (ErrNoSortableFiles 0), ex_fs0 (ex_config\<lparr>FileLimit := 0\<rparr>),
          ex_world\<lparr>trace := [OpStat ''/in'']\<rparr>)"
proof -
  let ?fs = "ex_fs0 (ex_config\<lparr>FileLimit := 0\<rparr>)"
  have lim: "FileLimit (config ?fs) \<le> int (length (sorts ?fs))"
    by (simp add: ex_fs0_def ex_config_def)
  have a: "add ex_env ''/in'' ex_in ?fs (ex_world\<lparr>trace := [OpStat ''/in'']\<rparr>)
             = (None, ?fs, ex_world\<lparr>trace := [OpStat ''/in'']\<rparr>)"
    by (rule add_at_limit) (rule lim)
  have n: "nodes ex_world ''/in'' = Some ex_in" and t: "trace ex_world = []"
    by (simp_all add: ex_world_def)
  have c: "Targets (config ?fs) = [''/in'']" and e: "sorts ?fs = []" "dirs ?fs = []"
    and f: "found (stats ?fs) = 0"
    by (simp_all add: ex_fs0_def ex_config_def)
  have "scan ex_env ?fs ex_world
          = (Some (ErrNoSortableFiles 0), ?fs, ex_world\<lparr>trace := [OpStat ''/in'']\<rparr>)"
    by (simp add: scan_def c os_Stat_def n t a e f)
  then show ?thesis using lim by simp
qed

text \<open>
  With a limit of one file and two media files in the directory, the first becomes a
  candidate, the second is passed over, and the scan succeeds.
\<close>

theorem C9_file_limit_is_a_soft_cap_witness:
  "FileLimit (config (ex_fs (ex_config\<lparr>FileLimit := 1\<rparr>)))
     \<le> int (length (sorts (ex_fs (ex_config\<lparr>FileLimit := 1\<rparr>))))
   \<and> nodes ex_world2 ''/in'' \<noteq> None
   \<and> add ex_env ''/in/b.mkv'' (Regular ''b.mkv'' 20) (ex_fs (ex_config\<lparr>FileLimit := 1\<rparr>)) ex_world2
       = (None, ex_fs (ex_config\<lparr>FileLimit := 1\<rparr>), ex_world2)
   \<and> scanTargets ex_env [''/in''] (ex_fs (ex_config\<lparr>FileLimit := 1\<rparr>)) ex_world2
       = (None, ex_fs (ex_config\<lparr>FileLimit := 1\<rparr>), ex_world2\<lparr>trace := [OpStat ''/in'']\<rparr>)
   \<and> sorts (ex_fs0 (ex_config\<lparr>FileLimit := 1\<rparr>)) = []
   \<and> 1 \<le> FileLimit (config (ex_fs0 (ex_config\<lparr>FileLimit := 1\<rparr>)))
   \<and> scan ex_env (ex_fs0 (ex_config\<lparr>FileLimit := 1\<rparr>)) ex_world2
       = (None,
          (ex_fs0 (ex_config\<lparr>FileLimit := 1\<rparr>))
            \<lparr>sorts := [(''/in/a.mkv'',
                        \<lparr>idn = 1, path = ''/in/a.mkv'', info = Regular ''a.mkv'' 10,
                         result = None, err = None\<rparr>)],
             dirs := [''/in''],
             stats := \<lparr>found = 1, matched = 1, moved = 0\<rparr>\<rparr>,
          ex_world2\<lparr>trace := [OpStat ''/in'', OpReadDir ''/in'']\<rparr>)
   \<and> FileLimit (config (ex_fs0 (ex_config\<lparr>FileLimit := 1\<rparr>)))
       \<le> int (length (sorts (fst (snd (scan ex_env (ex_fs0 (ex_config\<lparr>FileLimit := 1\<rparr>)) ex_world2)))))
   \<and> int (length (sorts (fst (snd (scan ex_env (ex_fs0 (ex_config\<lparr>FileLimit := 1\<rparr>)) ex_world2)))))
       \<le> max 0 (FileLimit (config (ex_fs0 (ex_config\<lparr>FileLimit := 1\<rparr>))))"
  using C9_file_limit_is_a_soft_cap
      [of ex_env "''/in/b.mkv''" "Regular ''b.mkv'' 20" "ex_fs (ex_config\<lparr>FileLimit := 1\<rparr>)"
          ex_world2 "[]" "[''/in'']"]
    C9_file_limit_is_a_soft_cap
      [of ex_env "''/in''" ex_in2 "ex_fs0 (ex_config\<lparr>FileLimit := 1\<rparr>)" ex_world2 "[]" "[]"]
  by (simp add: scan_def os_Stat_def add_cases HasPrefix_def Ext_def ex_defs Let_def)

section \<open>A file limit of zero\<close>

text \<open>
  C10, as the code has it. With a file limit of 0 every call of \<^verbatim>\<open>add\<close> returns at once, so
  no candidate is added and no directory recorded, and \<^verbatim>\<open>FileSystemSort\<close> always fails in its
  first pass: with the validation error when the configuration is contradictory, with the
  stat error of a target that cannot be stat'ed, and otherwise, after one stat per
  target, with the no-sortable-files error reporting 0 files checked.
\<close>

theorem C10_zero_file_limit:
  assumes "FileLimit c = 0"
  shows "fst (FileSystemSort env c ps w)
           \<in> Some ` Some ` ({ErrWatchNeedsRecursive, ErrOverwriteRedundant, ErrNoSortableFiles 0}
                            \<union> ErrStat ` set (Targets c))
       \<and> (\<not> (Watch c \<and> \<not> Recursive c) \<and> \<not> (Overwrite c \<and> OverwriteIfLarger c)
            \<and> (\<forall>t\<in>set (Targets c). nodes w t \<noteq> None) \<longrightarrow>
          FileSystemSort env c ps w
            = (Some (Some (ErrNoSortableFiles 0)), w\<lparr>trace := trace w @ map OpStat (Targets c)\<rparr>))
       \<and> (\<forall>fs p i w'. FileLimit (config fs) = 0 \<longrightarrow> add env p i fs w' = (None, fs, w'))"
proof -
  have three: "\<forall>fs p i w'. FileLimit (config fs) = 0 \<longrightarrow> add env p i fs w' = (None, fs, w')"
    by (simp add: add_at_limit)
  show ?thesis
  proof (cases "(Watch c \<and> \<not> Recursive c) \<or> (Overwrite c \<and> OverwriteIfLarger c)")
    case True
    have "fst (FileSystemSort env c ps w)
            = Some (Some (if Watch c \<and> \<not> Recursive c then ErrWatchNeedsRecursive
                          else ErrOverwriteRedundant))"
      using True by (auto simp: FileSystemSort_def Let_def)
    then show ?thesis using True three by auto
  next
    case False
    then have v1: "\<not> (Watch c \<and> \<not> Recursive c)" and v2: "\<not> (Overwrite c \<and> OverwriteIfLarger c)"
      by auto
    obtain c' where c': "FileLimit c' = FileLimit c" "Targets c' = Targets c"
      and fss: "FileSystemSort env c ps w =
               (case loop env \<lparr>config = c',
                       validExts = set (map (\<lambda>e. ''.'' @ e) (Split (Extensions c') CHR '','')),
                       sorts = [], dirs = [],
                       stats = \<lparr>found = 0, matched = 0, moved = 0\<rparr>\<rparr> ps w
                of (r, fs', w') \<Rightarrow> (r, w'))"
      using FileSystemSort_valid [OF v1 v2, of env ps w] by blast
    let ?fs = "\<lparr>config = c',
                validExts = set (map (\<lambda>e. ''.'' @ e) (Split (Extensions c') CHR '','')),
                sorts = [], dirs = [], stats = \<lparr>found = 0, matched = 0, moved = 0\<rparr>\<rparr>"
    have rs: "?fs\<lparr>sorts := [], dirs := []\<rparr> = ?fs" by simp
    have sc: "fst (scan env ?fs w)
           \<in> Some ` insert (ErrNoSortableFiles 0) (ErrStat ` set (Targets c))
       \<and> ((\<forall>t\<in>set (Targets c). nodes w t \<noteq> None) \<longrightarrow>
            scan env ?fs w = (Some (ErrNoSortableFiles 0), ?fs,
                             w\<lparr>trace := trace w @ map OpStat (Targets c)\<rparr>))"
      using scan_without_candidates [of ?fs env w] c' assms by simp
    obtain e fs2 w2 where se: "scan env ?fs w = (Some e, fs2, w2)"
      and e: "e \<in> insert (ErrNoSortableFiles 0) (ErrStat ` set (Targets c))"
      using sc by (cases "scan env ?fs w") auto
    have l: "loop env ?fs ps w = (Some (Some e), fs2, w2)"
      using loop_scan_error [of env ?fs w e fs2 w2 ps] se by simp
    have one: "fst (FileSystemSort env c ps w)
           \<in> Some ` Some ` ({ErrWatchNeedsRecursive, ErrOverwriteRedundant, ErrNoSortableFiles 0}
                            \<union> ErrStat ` set (Targets c))"
      using fss l e by auto
    have two: "(\<forall>t\<in>set (Targets c). nodes w t \<noteq> None) \<longrightarrow>
          FileSystemSort env c ps w
            = (Some (Some (ErrNoSortableFiles 0)), w\<lparr>trace := trace w @ map OpStat (Targets c)\<rparr>)"
      using sc se l fss by auto
    show ?thesis using one two three by simp
  qed
qed

text \<open>
  The claim as stated fails when a target does not exist: the stat error is returned, not
  the no-sortable-files error.
\<close>

theorem C10_missing_target_is_a_stat_error:
  "FileLimit (ex_config\<lparr>Targets := [''/missing''], FileLimit := 0\<rparr>) = 0
   \<and> FileSystemSort ex_env (ex_config\<lparr>Targets := [''/missing''], FileLimit := 0\<rparr>) [] ex_world
       = (Some (Some (ErrStat ''/missing'')), ex_world\<lparr>trace := [OpStat ''/missing'']\<rparr>)"
proof -
  let ?c = "ex_config\<lparr>Targets := [''/missing''], FileLimit := 0\<rparr>"
  let ?fs = "\<lparr>config = ?c,
              validExts = set (map (\<lambda>e. ''.'' @ e) (Split (Extensions ?c) CHR '','')),
              sorts = [], dirs = [], stats = \<lparr>found = 0, matched = 0, moved = 0\<rparr>\<rparr>"
  have s: "scan ex_env ?fs ex_world
             = (Some (ErrStat ''/missing''), ?fs, ex_world\<lparr>trace := [OpStat ''/missing'']\<rparr>)"
    by (simp add: scan_def os_Stat_def ex_config_def ex_world_def)
  have "FileSystemSort ex_env ?c [] ex_world
          = (Some (Some (ErrStat ''/missing'')), ex_world\<lparr>trace := [OpStat ''/missing'']\<rparr>)"
    by (rule FileSystemSort_first_scan_fails [OF _ _ _ _ s]) (simp_all add: ex_config_def)
  then show ?thesis by (simp add: ex_config_def)
qed

theorem C10_zero_file_limit_witness:
  "FileLimit (ex_config\<lparr>FileLimit := 0\<rparr>) = 0
   \<and> \<not> (Watch (ex_config\<lparr>FileLimit := 0\<rparr>) \<and> \<not> Recursive (ex_config\<lparr>FileLimit := 0\<rparr>))
   \<and> \<not> (Overwrite (ex_config\<lparr>FileLimit := 0\<rparr>) \<and> OverwriteIfLarger (ex_config\<lparr>FileLimit := 0\<rparr>))
   \<and> nodes ex_world ''/in'' \<noteq> None
   \<and> FileSystemSort ex_env (ex_config\<lparr>FileLimit := 0\<rparr>) [] ex_world
       = (Some (Some (ErrNoSortableFiles 0)), ex_world\<lparr>trace := [OpStat ''/in'']\<rparr>)
   \<and> add ex_env ''/in'' ex_in (ex_fs0 (ex_config\<lparr>FileLimit := 0\<rparr>)) ex_world
       = (None, ex_fs0 (ex_config\<lparr>FileLimit := 0\<rparr>), ex_world)"
  using C10_zero_file_limit
    [where c = "ex_config\<lparr>FileLimit := 0\<rparr>" and env = ex_env and ps = "[]" and w = ex_world]
  by (simp add: ex_config_def ex_world_def ex_fs0_def)

section \<open>The run-statistics counters\<close>




section \<open>The dispatcher\<close>

text \<open>The placer only appends to the log.\<close>

lemma os_MkdirAll_logs: "logs (snd (os_MkdirAll d w)) = logs w"
  by (auto simp: os_MkdirAll_def Let_def split: option.splits)

lemma os_Rename_logs: "logs (snd (os_Rename a b w)) = logs w"
  by (auto simp: os_Rename_def Let_def split: option.splits)

lemma moveSubs_logs: "logs (moveSubs r newPath w) = logs w"
  by (auto simp: moveSubs_def os_Stat_def os_Rename_def Let_def split: option.splits)

lemma placement_logs:
  "logs (snd (case checkExists fs f np w1 of
                (Some e, w2) \<Rightarrow> (Some e, w2)
              | (None, w2) \<Rightarrow>
                  (case os_MkdirAll d w2 of
                     (Some e, w3) \<Rightarrow> (Some e, w3)
                   | (None, w3) \<Rightarrow>
                       (case os_Rename a np w3 of
                          (Some e, w4) \<Rightarrow> (Some e, w4)
                        | (None, w4) \<Rightarrow> (None, moveSubs r np w4))))) = logs w1"
proof -
  obtain x w2 where c: "checkExists fs f np w1 = (x, w2)" by (cases "checkExists fs f np w1") auto
  have l2: "logs w2 = logs w1" using checkExists_world [of fs f np w1] c by simp
  obtain y w3 where m: "os_MkdirAll d w2 = (y, w3)" by (cases "os_MkdirAll d w2") auto
  have l3: "logs w3 = logs w2" using os_MkdirAll_logs [of d w2] m by simp
  obtain z w4 where n: "os_Rename a np w3 = (z, w4)" by (cases "os_Rename a np w3") auto
  have l4: "logs w4 = logs w3" using os_Rename_logs [of a np w3] n by simp
  show ?thesis
    using c m n l2 l3 l4 moveSubs_logs [of r np w4]
    by (cases x; cases y; cases z) simp_all
qed

lemma sortFile_logs:
  "logs (snd (sortFile env fs f w)) =
     (case Sort env (path f) of
        Inl e \<Rightarrow> logs w
      | Inr r \<Rightarrow>
          (case destination env fs r of
             Inl e \<Rightarrow> logs w
           | Inr np \<Rightarrow> logs w @ [LogMove (idn f) (length (sorts fs)) (Path r) np]))"
proof (cases "Sort env (path f)")
  case (Inl e)
  then show ?thesis by (simp add: sortFile_def)
next
  case (Inr r)
  show ?thesis
  proof (cases "destination env fs r")
    case (Inl e)
    then show ?thesis using Inr by (simp add: sortFile_def)
  next
    case np: (Inr np)
    show ?thesis
      using Inr np
      by (simp add: sortFile_def Let_def placement_logs)
  qed
qed

lemma sortFile_logs_mono: "set (logs w) \<subseteq> set (logs (snd (sortFile env fs f w)))"
  by (auto simp: sortFile_logs split: sum.splits)

lemma mset_dropAt: "i < length xs \<Longrightarrow> add_mset (xs ! i) (mset (dropAt i xs)) = mset xs"
proof -
  assume "i < length xs"
  then have "xs = take i xs @ xs ! i # drop (Suc i) xs" by (rule id_take_nth_drop)
  then have "mset xs = mset (take i xs @ xs ! i # drop (Suc i) xs)" by simp
  then show ?thesis by (simp add: dropAt_def)
qed

lemma length_dropAt: "i < length xs \<Longrightarrow> Suc (length (dropAt i xs)) = length xs"
  by (auto simp: dropAt_def)

lemma dinit_inv: "dinv fs (dinit fs w)"
  by (simp add: dinv_def dinit_def)


lemma dstep_inv:
  assumes "dinv fs s" and "dstep env fs a s = Some s'"
  shows "dinv fs s'"
proof (cases a)
  case (Spawn i)
  with assms(2) have c: "\<not> returned s" "i < length (waiting s)"
      "int (queue s) < Concurrency (config fs)"
    and s': "s' = s\<lparr>waiting := dropAt i (waiting s), running := running s @ [waiting s ! i],
                    queue := queue s + 1, wg := wg s + 1\<rparr>"
    by (auto split: if_splits)
  have m: "mset (waiting s) = add_mset (waiting s ! i) (mset (dropAt i (waiting s)))"
    using c(2) by (simp add: mset_dropAt)
  show ?thesis
    using assms(1) c unfolding dinv_def s' by (simp add: m)
next
  case (Work i)
  with assms(2) have c: "i < length (running s)" by (auto split: if_splits)
  let ?f = "running s ! i"
  obtain e w' where sf: "sortFile env fs ?f (dworld s) = (e, w')"
    by (cases "sortFile env fs ?f (dworld s)") auto
  let ?w = "case e of None \<Rightarrow> w'
            | Some er \<Rightarrow> w'\<lparr>logs := logs w' @ [LogFail (idn ?f) (length (sorts fs)) (path ?f) er]\<rparr>"
  have s': "s' = s\<lparr>running := dropAt i (running s), holding := holding s @ [?f],
                   outcomes := outcomes s @ [(?f, e)], dworld := ?w\<rparr>"
    using assms(2) Work c sf by (cases e) (simp_all add: Let_def)
  have m: "mset (running s) = add_mset ?f (mset (dropAt i (running s)))"
    using c by (simp add: mset_dropAt)
  have l: "Suc (length (dropAt i (running s))) = length (running s)"
    using c by (rule length_dropAt)
  have mono: "set (logs (dworld s)) \<subseteq> set (logs ?w)"
    using sortFile_logs_mono [of "dworld s" env fs ?f] sf by (cases e) auto
  have new: "\<forall>er. e = Some er \<longrightarrow>
               LogFail (idn ?f) (length (sorts fs)) (path ?f) er \<in> set (logs ?w)"
    by (cases e) simp_all
  have old: "\<forall>x\<in>set (outcomes s). \<forall>e. snd x = Some e \<longrightarrow>
           LogFail (idn (fst x)) (length (sorts fs)) (path (fst x)) e \<in> set (logs ?w)"
    using assms(1) mono unfolding dinv_def by blast
  have n: "length (dropAt i (running s)) + (length (holding s) + 1) = queue s"
    "wg s = length (dropAt i (running s)) + (length (holding s) + 1) + length (leaving s)"
    using assms(1) l unfolding dinv_def by linarith+
  have rest: "int (queue s) \<le> max 0 (Concurrency (config fs))"
    "mset (waiting s) + mset (running s) + mset (holding s) + mset (leaving s)
          + mset (finished s) = mset (map snd (sorts fs))"
    "mset (map fst (outcomes s)) = mset (holding s) + mset (leaving s) + mset (finished s)"
    "returned s \<longrightarrow> waiting s = [] \<and> wg s = 0"
    using assms(1) unfolding dinv_def by blast+
  show ?thesis
    unfolding dinv_def s'
    using n rest new old by (simp add: m)
next
  case (Release i)
  with assms(2) have c: "i < length (holding s)" "0 < queue s"
    and s': "s' = s\<lparr>holding := dropAt i (holding s), leaving := leaving s @ [holding s ! i],
                    queue := queue s - 1\<rparr>"
    by (auto split: if_splits)
  have m: "mset (holding s) = add_mset (holding s ! i) (mset (dropAt i (holding s)))"
    using c(1) by (simp add: mset_dropAt)
  have l: "Suc (length (dropAt i (holding s))) = length (holding s)"
    using c(1) by (rule length_dropAt)
  have n: "length (running s) + length (dropAt i (holding s)) = queue s - 1"
    "wg s = length (running s) + length (dropAt i (holding s)) + (length (leaving s) + 1)"
    "int (queue s - 1) \<le> max 0 (Concurrency (config fs))"
    using assms(1) l c(2) unfolding dinv_def by linarith+
  have rest: 
    "mset (waiting s) + mset (running s) + mset (holding s) + mset (leaving s)
          + mset (finished s) = mset (map snd (sorts fs))"
    "mset (map fst (outcomes s)) = mset (holding s) + mset (leaving s) + mset (finished s)"
    "returned s \<longrightarrow> waiting s = [] \<and> wg s = 0"
    "\<forall>x\<in>set (outcomes s). \<forall>e. snd x = Some e \<longrightarrow>
           LogFail (idn (fst x)) (length (sorts fs)) (path (fst x)) e \<in> set (logs (dworld s))"
    using assms(1) unfolding dinv_def by blast+
  show ?thesis
    unfolding dinv_def s'
    using n rest by (simp add: m)
next
  case (Finish i)
  with assms(2) have c: "i < length (leaving s)" "0 < wg s"
    and s': "s' = s\<lparr>leaving := dropAt i (leaving s), finished := finished s @ [leaving s ! i],
                    wg := wg s - 1\<rparr>"
    by (auto split: if_splits)
  have m: "mset (leaving s) = add_mset (leaving s ! i) (mset (dropAt i (leaving s)))"
    using c(1) by (simp add: mset_dropAt)
  have l: "Suc (length (dropAt i (leaving s))) = length (leaving s)"
    using c(1) by (rule length_dropAt)
  have n: "length (running s) + length (holding s) = queue s"
    "wg s - 1 = length (running s) + length (holding s) + length (dropAt i (leaving s))"
    "int (queue s) \<le> max 0 (Concurrency (config fs))"
    "\<not> returned s"
    using assms(1) l c(2) unfolding dinv_def by auto
  have rest: 
    "mset (waiting s) + mset (running s) + mset (holding s) + mset (leaving s)
          + mset (finished s) = mset (map snd (sorts fs))"
    "mset (map fst (outcomes s)) = mset (holding s) + mset (leaving s) + mset (finished s)"
    "\<forall>x\<in>set (outcomes s). \<forall>e. snd x = Some e \<longrightarrow>
           LogFail (idn (fst x)) (length (sorts fs)) (path (fst x)) e \<in> set (logs (dworld s))"
    using assms(1) unfolding dinv_def by blast+
  show ?thesis
    unfolding dinv_def s'
    using n rest by (simp add: m)
next
  case Return
  with assms(2) have c: "waiting s = []" "wg s = 0" and s': "s' = s\<lparr>returned := True\<rparr>"
    by (auto split: if_splits)
  show ?thesis
    using assms(1) c unfolding dinv_def s' by auto
qed

lemma run_inv: "dinv fs s \<Longrightarrow> dinv fs (run env fs sched s)"
proof (induction sched arbitrary: s)
  case Nil
  then show ?case by simp
next
  case (Cons a sched)
  show ?case
  proof (cases "dstep env fs a s")
    case None
    then show ?thesis using Cons by simp
  next
    case (Some s')
    then have "dinv fs s'" using Cons.prems by (rule dstep_inv [rotated])
    then show ?thesis using Cons.IH Some by simp
  qed
qed

lemma run_append: "run env fs (xs @ ys) s = run env fs ys (run env fs xs s)"
  by (induction xs arbitrary: s) simp_all

lemma dstep_decreases: "dstep env fs a s = Some s' \<Longrightarrow> dmeasure s' < dmeasure s"
proof (cases a)
  case (Spawn i)
  assume "dstep env fs a s = Some s'"
  with Spawn have c: "i < length (waiting s)"
    and s': "s' = s\<lparr>waiting := dropAt i (waiting s), running := running s @ [waiting s ! i],
                    queue := queue s + 1, wg := wg s + 1\<rparr>"
    by (auto split: if_splits)
  show ?thesis using length_dropAt [OF c] unfolding s' dmeasure_def by simp
next
  case (Work i)
  assume a: "dstep env fs a s = Some s'"
  with Work have c: "i < length (running s)" by (auto split: if_splits)
  have "running s' = dropAt i (running s) \<and> holding s' = holding s @ [running s ! i]
        \<and> waiting s' = waiting s \<and> leaving s' = leaving s \<and> returned s' = returned s"
    using a Work c by (auto simp: Let_def split: prod.splits option.splits)
  then show ?thesis using length_dropAt [OF c] unfolding dmeasure_def by simp
next
  case (Release i)
  assume "dstep env fs a s = Some s'"
  with Release have c: "i < length (holding s)"
    and s': "s' = s\<lparr>holding := dropAt i (holding s), leaving := leaving s @ [holding s ! i],
                    queue := queue s - 1\<rparr>"
    by (auto split: if_splits)
  show ?thesis using length_dropAt [OF c] unfolding s' dmeasure_def by simp
next
  case (Finish i)
  assume "dstep env fs a s = Some s'"
  with Finish have c: "i < length (leaving s)"
    and s': "s' = s\<lparr>leaving := dropAt i (leaving s), finished := finished s @ [leaving s ! i],
                    wg := wg s - 1\<rparr>"
    by (auto split: if_splits)
  show ?thesis using length_dropAt [OF c] unfolding s' dmeasure_def by simp
next
  case Return
  assume "dstep env fs a s = Some s'"
  with Return have c: "\<not> returned s" and s': "s' = s\<lparr>returned := True\<rparr>"
    by (auto split: if_splits)
  show ?thesis using c unfolding s' dmeasure_def by simp
qed

lemma dstep_progress:
  assumes "dinv fs s" and "\<not> returned s" and "1 \<le> Concurrency (config fs)"
  shows "\<exists>a s'. dstep env fs a s = Some s'"
proof -
  have q: "length (running s) + length (holding s) = queue s"
    and g: "wg s = length (running s) + length (holding s) + length (leaving s)"
    using assms(1) unfolding dinv_def by simp_all
  show ?thesis
  proof (cases "holding s = []")
    case False
    then have "0 < length (holding s) \<and> 0 < queue s" using q by (cases "holding s") auto
    then have "dstep env fs (Release 0) s \<noteq> None" by simp
    then show ?thesis by blast
  next
    case h: True
    show ?thesis
    proof (cases "leaving s = []")
      case False
      then have "0 < length (leaving s) \<and> 0 < wg s" using g by (cases "leaving s") auto
      then have "dstep env fs (Finish 0) s \<noteq> None" by simp
      then show ?thesis by blast
    next
      case l: True
      show ?thesis
      proof (cases "running s = []")
        case False
        then have "0 < length (running s)" by simp
        then have "dstep env fs (Work 0) s \<noteq> None"
          by (auto simp: Let_def split: prod.splits option.splits)
        then show ?thesis by blast
      next
        case r: True
        have z: "queue s = 0" "wg s = 0" using q g h l r by simp_all
        show ?thesis
        proof (cases "waiting s = []")
          case True
          then have "dstep env fs Return s \<noteq> None" using assms(2) z by simp
          then show ?thesis by blast
        next
          case False
          then have "0 < length (waiting s)" by simp
          then have "dstep env fs (Spawn 0) s \<noteq> None" using assms(2,3) z by simp
          then show ?thesis by blast
        qed
      qed
    qed
  qed
qed

lemma run_completes:
  assumes "1 \<le> Concurrency (config fs)"
  shows "dinv fs s \<Longrightarrow> \<exists>rest. returned (run env fs rest s)"
proof (induction s rule: measure_induct_rule [of dmeasure])
  case (less s)
  show ?case
  proof (cases "returned s")
    case True
    then have "returned (run env fs [] s)" by simp
    then show ?thesis by blast
  next
    case False
    obtain a s' where st: "dstep env fs a s = Some s'"
      using dstep_progress [OF less.prems False assms] by blast
    have "dinv fs s'" using less.prems st by (rule dstep_inv)
    moreover have "dmeasure s' < dmeasure s" using st by (rule dstep_decreases)
    ultimately obtain rest where "returned (run env fs rest s')"
      using less.IH by blast
    then have "returned (run env fs (a # rest) s)" using st by simp
    then show ?thesis by blast
  qed
qed


text \<open>The call in terms of the run of its goroutines.\<close>

lemma sortAllFiles_run:
  assumes "0 \<le> Concurrency (config fs)"
  shows "sortAllFiles env fs sched w =
           (if returned (run env fs sched
                  (dinit fs (if DryRun (config fs) then w\<lparr>logs := logs w @ [LogDryrun]\<rparr> else w)))
            then Some None else None,
            dworld (run env fs sched
                  (dinit fs (if DryRun (config fs) then w\<lparr>logs := logs w @ [LogDryrun]\<rparr> else w))))"
  using assms by (simp add: sortAllFiles_def Let_def)

lemma sortAllFiles_never_fails: "fst (sortAllFiles env fs sched w) \<noteq> Some (Some e)"
  by (simp add: sortAllFiles_def Let_def)

text \<open>
  Without a slot nothing can start: with a capacity of 0 and a candidate to send for, no
  goroutine can take a step, and \<^verbatim>\<open>make\<close> panics on a negative capacity.
\<close>

lemma run_stuck:
  assumes "\<And>a. dstep env fs a s = None"
  shows "run env fs sched s = s"
  by (induction sched) (simp_all add: assms)

lemma sortAllFiles_no_slot:
  assumes "Concurrency (config fs) \<le> 0" and "sorts fs \<noteq> []"
  shows "fst (sortAllFiles env fs sched w) = None"
proof (cases "Concurrency (config fs) < 0")
  case True
  then show ?thesis by (simp add: sortAllFiles_def Let_def)
next
  case False
  then have z: "Concurrency (config fs) = 0" using assms(1) by simp
  let ?w = "if DryRun (config fs) then w\<lparr>logs := logs w @ [LogDryrun]\<rparr> else w"
  have st: "\<And>a. dstep env fs a (dinit fs ?w) = None"
  proof -
    fix a
    show "dstep env fs a (dinit fs ?w) = None"
      using z assms(2) by (cases a) (simp_all add: dinit_def)
  qed
  have "run env fs sched (dinit fs ?w) = dinit fs ?w"
    by (rule run_stuck) (rule st)
  then show ?thesis
    using z by (simp add: sortAllFiles_def Let_def dinit_def)
qed

text \<open>What the dispatcher reads of the example sorters, and the resolver's failure.\<close>

lemma ex_fs_bad_fields:
  "sorts ex_fs_bad = [(''/in/unknown.mkv'', ex_file_bad)]"
  "Concurrency (config ex_fs_bad) = 2" "DryRun (config ex_fs_bad) = False"
  by (simp_all add: ex_fs_bad_def ex_fs0_def ex_config_def)

lemma ex_fs_two_fields:
  "sorts ex_fs_two = [(''/in/Show.S01E02.mkv'', ex_file), (''/in/unknown.mkv'', ex_file_bad)]"
  "Concurrency (config ex_fs_two) = 1" "DryRun (config ex_fs_two) = False"
  by (simp_all add: ex_fs_two_def ex_fs0_def ex_config_def)

lemma ex_file_bad_fails:
  "sortFile ex_env ex_fs_bad ex_file_bad ex_world
     = (Some (ErrResolver ''/in/unknown.mkv''), ex_world)"
  by (simp add: sortFile_def ex_env_def ex_file_bad_def)

lemma ex_run_bad:
  "run ex_env ex_fs_bad ex_schedule (dinit ex_fs_bad ex_world)
     = \<lparr>waiting = [], running = [], holding = [], leaving = [], finished = [ex_file_bad],
        outcomes = [(ex_file_bad, Some (ErrResolver ''/in/unknown.mkv''))],
        queue = 0, wg = 0, returned = True,
        dworld = ex_world\<lparr>logs := logs ex_world @
           [LogFail (idn ex_file_bad) 1 (path ex_file_bad) (ErrResolver ''/in/unknown.mkv'')]\<rparr>\<rparr>"
  by (simp add: ex_schedule_def dinit_def dropAt_def ex_fs_bad_fields ex_file_bad_fails)

text \<open>
  C7. With a concurrency ceiling of at least 1, in every state the dispatcher can reach
  under any schedule, the tasks in flight (started and not yet through their receive from
  \<^verbatim>\<open>queue\<close>) are as many as the elements in the channel and at most the ceiling, whatever the
  number of candidates. A task is started only by a send that finds the channel below
  its capacity and adds one element; a task that has run \<^verbatim>\<open>fs.sortFile\<close>, with or without an
  error, can always take its element back. The call has returned only when no candidate
  is waiting, running, holding a slot or about to call \<^verbatim>\<open>wg.Done()\<close>: all have finished.
\<close>

theorem C7_at_most_N_in_flight:
  assumes "1 \<le> Concurrency (config fs)"
    and "s = run env fs sched (dinit fs w)"
  shows "int (length (running s) + length (holding s)) \<le> Concurrency (config fs)
       \<and> length (running s) + length (holding s) = queue s
       \<and> (\<forall>i s'. dstep env fs (Spawn i) s = Some s' \<longrightarrow>
             int (queue s) < Concurrency (config fs) \<and> queue s' = queue s + 1
             \<and> running s' = running s @ [waiting s ! i])
       \<and> (\<forall>i. i < length (holding s) \<longrightarrow>
             (\<exists>s'. dstep env fs (Release i) s = Some s' \<and> queue s' = queue s - 1))
       \<and> (returned s \<longrightarrow>
             waiting s = [] \<and> running s = [] \<and> holding s = [] \<and> leaving s = []
             \<and> mset (finished s) = mset (map snd (sorts fs)))
       \<and> (fst (sortAllFiles env fs sched w) = Some None \<longrightarrow>
             returned (run env fs sched
               (dinit fs (if DryRun (config fs) then w\<lparr>logs := logs w @ [LogDryrun]\<rparr> else w))))"
proof -
  have inv: "dinv fs s"
    unfolding assms(2) by (rule run_inv) (rule dinit_inv)
  have q: "length (running s) + length (holding s) = queue s"
    and g: "wg s = length (running s) + length (holding s) + length (leaving s)"
    and b: "int (queue s) \<le> max 0 (Concurrency (config fs))"
    and m: "mset (waiting s) + mset (running s) + mset (holding s) + mset (leaving s)
          + mset (finished s) = mset (map snd (sorts fs))"
    and r: "returned s \<longrightarrow> waiting s = [] \<and> wg s = 0"
    using inv unfolding dinv_def by blast+
  have one: "int (length (running s) + length (holding s)) \<le> Concurrency (config fs)"
    using q b assms(1) by simp
  have three: "\<forall>i s'. dstep env fs (Spawn i) s = Some s' \<longrightarrow>
             int (queue s) < Concurrency (config fs) \<and> queue s' = queue s + 1
             \<and> running s' = running s @ [waiting s ! i]"
    by (auto split: if_splits)
  have four: "\<forall>i. i < length (holding s) \<longrightarrow>
             (\<exists>s'. dstep env fs (Release i) s = Some s' \<and> queue s' = queue s - 1)"
  proof (intro allI impI)
    fix i assume "i < length (holding s)"
    then have "i < length (holding s) \<and> 0 < queue s" using q by simp
    then show "\<exists>s'. dstep env fs (Release i) s = Some s' \<and> queue s' = queue s - 1" by simp
  qed
  have five: "returned s \<longrightarrow>
             waiting s = [] \<and> running s = [] \<and> holding s = [] \<and> leaving s = []
             \<and> mset (finished s) = mset (map snd (sorts fs))"
  proof
    assume "returned s"
    then have w0: "waiting s = []" and g0: "wg s = 0" using r by simp_all
    then have e: "running s = []" "holding s = []" "leaving s = []" using g by simp_all
    then show "waiting s = [] \<and> running s = [] \<and> holding s = [] \<and> leaving s = []
             \<and> mset (finished s) = mset (map snd (sorts fs))"
      using w0 m by simp
  qed
  have six: "fst (sortAllFiles env fs sched w) = Some None \<longrightarrow>
             returned (run env fs sched
               (dinit fs (if DryRun (config fs) then w\<lparr>logs := logs w @ [LogDryrun]\<rparr> else w)))"
    using assms(1) by (simp add: sortAllFiles_def Let_def split: if_splits)
  show ?thesis using one q three four five six by blast
qed

text \<open>
  Two candidates and a ceiling of 1: the second send is blocked while the first task is
  in flight. One candidate run to its end: the call has returned and the candidate has
  finished.
\<close>

theorem C7_at_most_N_in_flight_witness:
  "1 \<le> Concurrency (config ex_fs_two)
   \<and> run ex_env ex_fs_two [Spawn 0, Spawn 0] (dinit ex_fs_two ex_world)
       = \<lparr>waiting = [ex_file_bad], running = [ex_file], holding = [], leaving = [],
          finished = [], outcomes = [], queue = 1, wg = 1, returned = False, dworld = ex_world\<rparr>
   \<and> int (length (running (run ex_env ex_fs_two [Spawn 0, Spawn 0] (dinit ex_fs_two ex_world)))
           + length (holding (run ex_env ex_fs_two [Spawn 0, Spawn 0] (dinit ex_fs_two ex_world))))
       \<le> Concurrency (config ex_fs_two)
   \<and> 1 \<le> Concurrency (config ex_fs_bad)
   \<and> returned (run ex_env ex_fs_bad ex_schedule (dinit ex_fs_bad ex_world))
   \<and> finished (run ex_env ex_fs_bad ex_schedule (dinit ex_fs_bad ex_world)) = [ex_file_bad]
   \<and> mset (finished (run ex_env ex_fs_bad ex_schedule (dinit ex_fs_bad ex_world)))
       = mset (map snd (sorts ex_fs_bad))"
proof -
  have c2: "1 \<le> Concurrency (config ex_fs_two)" and cb: "1 \<le> Concurrency (config ex_fs_bad)"
    by (simp_all add: ex_fs_two_fields ex_fs_bad_fields)
  note t1 = C7_at_most_N_in_flight [OF c2, of _ ex_env "[Spawn 0, Spawn 0]" ex_world, OF refl]
  note t2 = C7_at_most_N_in_flight [OF cb, of _ ex_env ex_schedule ex_world, OF refl]
  have bound: "int (length (running (run ex_env ex_fs_two [Spawn 0, Spawn 0] (dinit ex_fs_two ex_world)))
           + length (holding (run ex_env ex_fs_two [Spawn 0, Spawn 0] (dinit ex_fs_two ex_world))))
       \<le> Concurrency (config ex_fs_two)"
    by (rule t1 [THEN conjunct1])
  have a: "run ex_env ex_fs_two [Spawn 0, Spawn 0] (dinit ex_fs_two ex_world)
       = \<lparr>waiting = [ex_file_bad], running = [ex_file], holding = [], leaving = [],
          finished = [], outcomes = [], queue = 1, wg = 1, returned = False, dworld = ex_world\<rparr>"
    by (simp add: dinit_def dropAt_def ex_fs_two_fields)
  have r: "returned (run ex_env ex_fs_bad ex_schedule (dinit ex_fs_bad ex_world))"
    and f: "finished (run ex_env ex_fs_bad ex_schedule (dinit ex_fs_bad ex_world)) = [ex_file_bad]"
    by (simp_all add: ex_run_bad)
  have all: "mset (finished (run ex_env ex_fs_bad ex_schedule (dinit ex_fs_bad ex_world)))
       = mset (map snd (sorts ex_fs_bad))"
    using t2 [THEN conjunct2, THEN conjunct2, THEN conjunct2, THEN conjunct2, THEN conjunct1] r
    by simp
  show ?thesis
    using c2 cb bound a r f all by simp
qed

text \<open>
  C6, as the code has it. With a concurrency ceiling of at least 1 the dispatch never
  returns an error; whatever has happened so far it can run on to its return, it is never
  stuck before it, and every step brings the return nearer, so it returns \<^verbatim>\<open>nil\<close>. When it
  has returned, \<^verbatim>\<open>fs.sortFile\<close> has been run for every candidate exactly once, whatever the
  others returned, and every error returned is in the log with the candidate's id, the
  number of candidates, its path and the error.
\<close>

theorem C6_dispatch_contains_errors:
  assumes "1 \<le> Concurrency (config fs)"
    and "s = run env fs sched (dinit fs w)"
  shows "fst (sortAllFiles env fs sched w) \<noteq> Some (Some e)
       \<and> (\<exists>rest. fst (sortAllFiles env fs (sched @ rest) w) = Some None)
       \<and> (\<not> returned s \<longrightarrow> (\<exists>a s'. dstep env fs a s = Some s'))
       \<and> (\<forall>a t t'. dstep env fs a t = Some t' \<longrightarrow> dmeasure t' < dmeasure t)
       \<and> (returned s \<longrightarrow> mset (map fst (outcomes s)) = mset (map snd (sorts fs)))
       \<and> (\<forall>x\<in>set (outcomes s). \<forall>e. snd x = Some e \<longrightarrow>
             LogFail (idn (fst x)) (length (sorts fs)) (path (fst x)) e \<in> set (logs (dworld s)))"
proof -
  have inv: "dinv fs s"
    unfolding assms(2) by (rule run_inv) (rule dinit_inv)
  have g: "wg s = length (running s) + length (holding s) + length (leaving s)"
    and m: "mset (waiting s) + mset (running s) + mset (holding s) + mset (leaving s)
          + mset (finished s) = mset (map snd (sorts fs))"
    and o: "mset (map fst (outcomes s)) = mset (holding s) + mset (leaving s) + mset (finished s)"
    and r: "returned s \<longrightarrow> waiting s = [] \<and> wg s = 0"
    and l: "\<forall>x\<in>set (outcomes s). \<forall>e. snd x = Some e \<longrightarrow>
             LogFail (idn (fst x)) (length (sorts fs)) (path (fst x)) e \<in> set (logs (dworld s))"
    using inv unfolding dinv_def by blast+
  let ?w = "if DryRun (config fs) then w\<lparr>logs := logs w @ [LogDryrun]\<rparr> else w"
  have two: "\<exists>rest. fst (sortAllFiles env fs (sched @ rest) w) = Some None"
  proof -
    have "dinv fs (run env fs sched (dinit fs ?w))"
      by (rule run_inv) (rule dinit_inv)
    then obtain rest where "returned (run env fs rest (run env fs sched (dinit fs ?w)))"
      using run_completes [OF assms(1)] by blast
    then have "returned (run env fs (sched @ rest) (dinit fs ?w))"
      by (simp add: run_append)
    then have "fst (sortAllFiles env fs (sched @ rest) w) = Some None"
      using assms(1) by (simp add: sortAllFiles_def Let_def)
    then show ?thesis by blast
  qed
  have three: "\<not> returned s \<longrightarrow> (\<exists>a s'. dstep env fs a s = Some s')"
    using dstep_progress [OF inv _ assms(1)] by blast
  have four: "\<forall>a t t'. dstep env fs a t = Some t' \<longrightarrow> dmeasure t' < dmeasure t"
    using dstep_decreases by blast
  have five: "returned s \<longrightarrow> mset (map fst (outcomes s)) = mset (map snd (sorts fs))"
  proof
    assume "returned s"
    then have w0: "waiting s = []" and g0: "wg s = 0" using r by simp_all
    then have e: "running s = []" "holding s = []" "leaving s = []" using g by simp_all
    show "mset (map fst (outcomes s)) = mset (map snd (sorts fs))"
      using o m w0 e by simp
  qed
  show ?thesis
    using sortAllFiles_never_fails [of env fs sched w e] two three four five l by blast
qed

text \<open>
  The claim as stated fails for a ceiling of 0: \<^verbatim>\<open>queue\<close> is then unbuffered, the first send
  waits for a receiver, and the only receivers are goroutines started after a send. Under
  the schedule that would run the candidate from start to end the call has not returned
  and nothing has been done; \<open>sortAllFiles_no_slot\<close> shows the same for every schedule.
\<close>

theorem C6_no_slot_never_returns:
  "sortAllFiles ex_env (ex_fs (ex_config\<lparr>Concurrency := 0\<rparr>)) ex_schedule ex_world
     = (None, ex_world)"
  by (simp add: sortAllFiles_def dinit_def ex_schedule_def ex_fs_def ex_config_def)

text \<open>
  A candidate the resolver does not know: the error is logged and the call returns
  \<^verbatim>\<open>nil\<close>.
\<close>

theorem C6_dispatch_contains_errors_witness:
  "1 \<le> Concurrency (config ex_fs_bad)
   \<and> sortAllFiles ex_env ex_fs_bad ex_schedule ex_world
       = (Some None,
          ex_world\<lparr>logs := [LogFail 1 1 ''/in/unknown.mkv'' (ErrResolver ''/in/unknown.mkv'')]\<rparr>)
   \<and> returned (run ex_env ex_fs_bad ex_schedule (dinit ex_fs_bad ex_world))
   \<and> outcomes (run ex_env ex_fs_bad ex_schedule (dinit ex_fs_bad ex_world))
       = [(ex_file_bad, Some (ErrResolver ''/in/unknown.mkv''))]
   \<and> mset (map fst (outcomes (run ex_env ex_fs_bad ex_schedule (dinit ex_fs_bad ex_world))))
       = mset (map snd (sorts ex_fs_bad))
   \<and> \<not> returned (run ex_env ex_fs_bad [] (dinit ex_fs_bad ex_world))
   \<and> dstep ex_env ex_fs_bad (Spawn 0) (run ex_env ex_fs_bad [] (dinit ex_fs_bad ex_world)) \<noteq> None"
proof -
  have cb: "1 \<le> Concurrency (config ex_fs_bad)"
    by (simp add: ex_fs_bad_fields)
  note t1 = C6_dispatch_contains_errors [OF cb, of _ ex_env ex_schedule ex_world, OF refl]
  have r: "returned (run ex_env ex_fs_bad ex_schedule (dinit ex_fs_bad ex_world))"
    and o: "outcomes (run ex_env ex_fs_bad ex_schedule (dinit ex_fs_bad ex_world))
       = [(ex_file_bad, Some (ErrResolver ''/in/unknown.mkv''))]"
    by (simp_all add: ex_run_bad)
  have all: "mset (map fst (outcomes (run ex_env ex_fs_bad ex_schedule (dinit ex_fs_bad ex_world))))
       = mset (map snd (sorts ex_fs_bad))"
    using t1 [THEN conjunct2, THEN conjunct2, THEN conjunct2, THEN conjunct2, THEN conjunct1] r
    by simp
  have l: "logs ex_world = []" by (simp add: ex_world_def)
  have i: "idn ex_file_bad = 1" "path ex_file_bad = ''/in/unknown.mkv''"
    by (simp_all add: ex_file_bad_def)
  have s: "sortAllFiles ex_env ex_fs_bad ex_schedule ex_world
       = (Some None,
          ex_world\<lparr>logs := [LogFail 1 1 ''/in/unknown.mkv'' (ErrResolver ''/in/unknown.mkv'')]\<rparr>)"
    by (simp add: sortAllFiles_def Let_def ex_fs_bad_fields ex_run_bad l i)
  have n: "\<not> returned (run ex_env ex_fs_bad [] (dinit ex_fs_bad ex_world))"
    and d: "dstep ex_env ex_fs_bad (Spawn 0) (run ex_env ex_fs_bad [] (dinit ex_fs_bad ex_world)) \<noteq> None"
    by (simp_all add: dinit_def ex_fs_bad_fields)
  show ?thesis
    using cb s r o all n d by simp
qed

end
